theory Spec2Isabelle
  imports Main "HOL-Library.Word"
begin

unbundle bit_operations_syntax

section \<open>Ring descriptors (pkg/ring/ring.pb.go)\<close>

text \<open>
  Go's \<open>string\<close> is a sequence of bytes, \<open>int64\<close>, \<open>int32\<close> and \<open>uint32\<close> are machine
  words. \<open>IngesterState\<close> is declared as \<open>type IngesterState int32\<close> with five named
  constants; a field of that type can hold any 32-bit value, so it stays a word.
\<close>

type_synonym byte = "8 word"
type_synonym gostring = "byte list"
type_synonym IngesterState = "32 word"

definition ACTIVE :: IngesterState where "ACTIVE = 0"
definition LEAVING :: IngesterState where "LEAVING = 1"
definition PENDING :: IngesterState where "PENDING = 2"
definition JOINING :: IngesterState where "JOINING = 3"
definition LEFT :: IngesterState where "LEFT = 4"

definition IngesterState_name :: "32 word \<Rightarrow> string option" where
  "IngesterState_name x =
     (if x = 0 then Some ''ACTIVE''
      else if x = 1 then Some ''LEAVING''
      else if x = 2 then Some ''PENDING''
      else if x = 3 then Some ''JOINING''
      else if x = 4 then Some ''LEFT''
      else None)"

definition IngesterState_value :: "string \<Rightarrow> 32 word option" where
  "IngesterState_value s =
     (if s = ''ACTIVE'' then Some 0
      else if s = ''LEAVING'' then Some 1
      else if s = ''PENDING'' then Some 2
      else if s = ''JOINING'' then Some 3
      else if s = ''LEFT'' then Some 4
      else None)"

record IngesterDesc =
  Addr :: gostring
  Timestamp :: "64 word"
  State :: IngesterState
  Tokens :: "32 word list"

text \<open>The zero value of the struct, \<open>IngesterDesc{}\<close>.\<close>

definition IngesterDesc_zero :: IngesterDesc where
  "IngesterDesc_zero = \<lparr>Addr = [], Timestamp = 0, State = 0, Tokens = []\<rparr>"

record Desc =
  Ingesters :: "(gostring \<times> IngesterDesc) list"

text \<open>
  \<open>Desc.Ingesters\<close> is a Go map from instance id to descriptor. It is modelled as an
  association list whose keys are pairwise distinct; the order of the list stands for
  the order in which \<open>range\<close> happens to visit the map. A map that is \<open>nil\<close> and
  an empty map are both the empty list: every operation below treats them alike.
\<close>

definition map_index :: "(gostring \<times> IngesterDesc) list \<Rightarrow> gostring \<Rightarrow> IngesterDesc" where
  "map_index m k = (case map_of m k of None \<Rightarrow> IngesterDesc_zero | Some v \<Rightarrow> v)"

fun map_assign ::
  "(gostring \<times> IngesterDesc) list \<Rightarrow> gostring \<Rightarrow> IngesterDesc
     \<Rightarrow> (gostring \<times> IngesterDesc) list" where
  "map_assign [] k v = [(k, v)]"
| "map_assign ((k', v') # m) k v =
     (if k' = k then (k, v) # m else (k', v') # map_assign m k v)"

subsection \<open>Equal\<close>

text \<open>Both receivers are taken to be non-nil pointers.\<close>

definition IngesterDesc_Equal :: "IngesterDesc \<Rightarrow> IngesterDesc \<Rightarrow> bool" where
  "IngesterDesc_Equal this that1 =
     (if Addr this \<noteq> Addr that1 then False
      else if Timestamp this \<noteq> Timestamp that1 then False
      else if State this \<noteq> State that1 then False
      else if length (Tokens this) \<noteq> length (Tokens that1) then False
      else list_all (\<lambda>i. Tokens this ! i = Tokens that1 ! i) [0..<length (Tokens this)])"

definition Desc_Equal :: "Desc \<Rightarrow> Desc \<Rightarrow> bool" where
  "Desc_Equal this that1 =
     (if length (Ingesters this) \<noteq> length (Ingesters that1) then False
      else list_all
             (\<lambda>i. IngesterDesc_Equal (map_index (Ingesters this) i)
                                      (map_index (Ingesters that1) i))
             (map fst (Ingesters this)))"

subsection \<open>Marshal\<close>

lemma unat_drop_bit_7_less: "w \<noteq> 0 \<Longrightarrow> unat (drop_bit 7 w) < unat w" for w :: "'a::len word"
proof -
  assume "w \<noteq> 0"
  then have "0 < unat w"
    by (simp add: unat_gt_0)
  then have "unat w div 2 ^ 7 < unat w"
    by simp
  moreover have "unat (drop_bit 7 w) = drop_bit 7 (unat w)"
    by (rule unat_drop_bit_eq)
  moreover have "drop_bit 7 (unat w) = unat w div 2 ^ 7"
    by (rule drop_bit_eq_div)
  ultimately show ?thesis
    by simp
qed

function encodeVarintRing :: "64 word \<Rightarrow> byte list" where
  "encodeVarintRing v =
     (if v \<ge> 0x80 then ucast (v AND 0x7f OR 0x80) # encodeVarintRing (drop_bit 7 v)
      else [ucast v])"
  by pat_completeness auto
termination
  by (relation "measure unat") (auto intro: unat_drop_bit_7_less)

declare encodeVarintRing.simps [simp del]

function sovRing :: "64 word \<Rightarrow> nat" where
  "sovRing x = (if drop_bit 7 x = 0 then 1 else 1 + sovRing (drop_bit 7 x))"
  by pat_completeness auto
termination
  by (relation "measure unat") (auto intro: unat_drop_bit_7_less)

declare sovRing.simps [simp del]

text \<open>
  The loop that packs one token into \<open>dAtA3\<close>: the same varint, computed on the
  \<open>uint32\<close>.
\<close>

function packToken :: "32 word \<Rightarrow> byte list" where
  "packToken num =
     (if num \<ge> 0x80 then ucast ((ucast num :: 64 word) AND 0x7f OR 0x80) # packToken (drop_bit 7 num)
      else [ucast num])"
  by pat_completeness auto
termination
  by (relation "measure unat") (auto intro: unat_drop_bit_7_less)

declare packToken.simps [simp del]

definition IngesterDesc_Size :: "IngesterDesc \<Rightarrow> nat" where
  "IngesterDesc_Size m =
     (if length (Addr m) > 0 then 1 + length (Addr m) + sovRing (of_nat (length (Addr m)))
      else 0)
     + (if Timestamp m \<noteq> 0 then 1 + sovRing (Timestamp m) else 0)
     + (if State m \<noteq> 0 then 1 + sovRing (scast (State m)) else 0)
     + (if length (Tokens m) > 0
        then 1 + sovRing (of_nat (sum_list (map (\<lambda>e. sovRing (ucast e)) (Tokens m))))
             + sum_list (map (\<lambda>e. sovRing (ucast e)) (Tokens m))
        else 0)"

text \<open>
  \<open>MarshalTo\<close> writes into consecutive offsets of the buffer it is given and returns how
  many bytes it wrote. The model returns the bytes written, in order.
\<close>

definition IngesterDesc_MarshalTo :: "IngesterDesc \<Rightarrow> byte list" where
  "IngesterDesc_MarshalTo m =
     (if length (Addr m) > 0
      then 0xa # encodeVarintRing (of_nat (length (Addr m))) @ Addr m else [])
     @ (if Timestamp m \<noteq> 0 then 0x10 # encodeVarintRing (Timestamp m) else [])
     @ (if State m \<noteq> 0 then 0x18 # encodeVarintRing (scast (State m)) else [])
     @ (if length (Tokens m) > 0
        then 0x32 # encodeVarintRing (of_nat (length (concat (map packToken (Tokens m)))))
             @ concat (map packToken (Tokens m))
        else [])"

definition Desc_entry_Size :: "gostring \<Rightarrow> IngesterDesc \<Rightarrow> nat" where
  "Desc_entry_Size k v =
     (let l = IngesterDesc_Size v;
          mapEntrySize = 1 + length k + sovRing (of_nat (length k)) + 1 + l + sovRing (of_nat l)
      in mapEntrySize + 1 + sovRing (of_nat mapEntrySize))"

definition Desc_Size :: "Desc \<Rightarrow> nat" where
  "Desc_Size m = sum_list (map (\<lambda>(k, v). Desc_entry_Size k v) (Ingesters m))"

definition Desc_entry_MarshalTo :: "gostring \<Rightarrow> IngesterDesc \<Rightarrow> byte list" where
  "Desc_entry_MarshalTo k v =
     (let msgSize = IngesterDesc_Size v + 1 + sovRing (of_nat (IngesterDesc_Size v));
          mapSize = 1 + length k + sovRing (of_nat (length k)) + msgSize
      in 0xa # encodeVarintRing (of_nat mapSize)
         @ 0xa # encodeVarintRing (of_nat (length k)) @ k
         @ 0x12 # encodeVarintRing (of_nat (IngesterDesc_Size v))
         @ IngesterDesc_MarshalTo v)"

definition Desc_MarshalTo :: "Desc \<Rightarrow> byte list" where
  "Desc_MarshalTo m = concat (map (\<lambda>(k, v). Desc_entry_MarshalTo k v) (Ingesters m))"

datatype error =
    ErrInvalidLengthRing
  | ErrIntOverflowRing
  | ErrUnexpectedEOF
  | ErrEndGroup
  | ErrIllegalTag "32 word" "64 word"
  | ErrWrongWireType nat string
  | ErrIllegalWireType nat
  | PanicIndexOutOfRange
  | PanicUnreachable

text \<open>
  \<open>Marshal\<close> allocates \<open>Size()\<close> bytes and lets \<open>MarshalTo\<close> fill them. A write
  past the end of the buffer is an index out of range.
\<close>

definition IngesterDesc_Marshal :: "IngesterDesc \<Rightarrow> error + byte list" where
  "IngesterDesc_Marshal m =
     (if length (IngesterDesc_MarshalTo m) \<le> IngesterDesc_Size m
      then Inr (IngesterDesc_MarshalTo m) else Inl PanicIndexOutOfRange)"

definition Desc_Marshal :: "Desc \<Rightarrow> error + byte list" where
  "Desc_Marshal m =
     (if length (Desc_MarshalTo m) \<le> Desc_Size m
      then Inr (Desc_MarshalTo m) else Inl PanicIndexOutOfRange)"

subsection \<open>Unmarshal\<close>

text \<open>
  The varint loop that the generated decoder repeats for every number it reads: seven
  bits per byte, least significant group first, into an accumulator of the target type
  (\<open>uint64\<close>, \<open>int\<close>, \<open>int64\<close>, \<open>int32\<close> or \<open>uint32\<close>). A shift by the width of
  the type or more gives 0, in Go as for \<open>push_bit\<close>.
\<close>

function decodeVarint ::
  "byte list \<Rightarrow> nat \<Rightarrow> nat \<Rightarrow> 'a::len word \<Rightarrow> error + ('a word \<times> nat)" where
  "decodeVarint dAtA iNdEx shift v =
     (if shift \<ge> 64 then Inl ErrIntOverflowRing
      else if iNdEx \<ge> length dAtA then Inl ErrUnexpectedEOF
      else if dAtA ! iNdEx < 0x80
      then Inr (v OR push_bit shift (ucast (dAtA ! iNdEx AND 0x7F)), iNdEx + 1)
      else decodeVarint dAtA (iNdEx + 1) (shift + 7)
             (v OR push_bit shift (ucast (dAtA ! iNdEx AND 0x7F))))"
  by pat_completeness auto
termination
  by (relation "measure (\<lambda>(dAtA, iNdEx, shift, v). 70 - shift)") auto

declare decodeVarint.simps [simp del]

text \<open>The same loop in \<open>skipRing\<close>, where the value is not kept.\<close>

function skipVarint :: "byte list \<Rightarrow> nat \<Rightarrow> nat \<Rightarrow> error + nat" where
  "skipVarint dAtA iNdEx shift =
     (if shift \<ge> 64 then Inl ErrIntOverflowRing
      else if iNdEx \<ge> length dAtA then Inl ErrUnexpectedEOF
      else if dAtA ! iNdEx < 0x80 then Inr (iNdEx + 1)
      else skipVarint dAtA (iNdEx + 1) (shift + 7))"
  by pat_completeness auto
termination
  by (relation "measure (\<lambda>(dAtA, iNdEx, shift). 70 - shift)") auto

declare skipVarint.simps [simp del]

text \<open>
  Reading a length prefix: the length as an \<open>int\<close>, refused when negative; the end
  index \<open>postIndex\<close>, refused when the addition overflows the 64-bit \<open>int\<close> (it is
  then negative in Go) or when it lies beyond the end of the data. The result is the
  index after the prefix and \<open>postIndex\<close>.
\<close>

definition decodeLength :: "byte list \<Rightarrow> nat \<Rightarrow> error + (nat \<times> nat)" where
  "decodeLength dAtA iNdEx =
     (case decodeVarint dAtA iNdEx 0 (0 :: 64 word) of
        Inl e \<Rightarrow> Inl e
      | Inr (len, i) \<Rightarrow>
          if sint len < 0 then Inl ErrInvalidLengthRing
          else if i + unat len \<ge> 2 ^ 63 then Inl ErrInvalidLengthRing
          else if i + unat len > length dAtA then Inl ErrUnexpectedEOF
          else Inr (i, i + unat len))"

text \<open>The slice expression \<open>dAtA[i:j]\<close>, for \<open>i \<le> j \<le> len(dAtA)\<close>.\<close>

definition slice :: "'a list \<Rightarrow> nat \<Rightarrow> nat \<Rightarrow> 'a list" where
  "slice xs i j = take (j - i) (drop i xs)"

text \<open>
  \<open>skipRing\<close> calls itself on the rest of the data for every element of a group. The
  recursion is written with a bound on its depth; \<open>skipRing_fuel_enough\<close> below shows
  that the bound used by \<open>skipRing\<close> is never reached.
\<close>

fun skipRing_fuel :: "nat \<Rightarrow> byte list \<Rightarrow> (error + nat) option"
  and skipGroup_fuel :: "nat \<Rightarrow> byte list \<Rightarrow> nat \<Rightarrow> (error + nat) option" where
  "skipRing_fuel 0 dAtA = None"
| "skipRing_fuel (Suc fuel) dAtA =
     (if length dAtA = 0 then Some (Inl PanicUnreachable)
      else case decodeVarint dAtA 0 0 (0 :: 64 word) of
          Inl e \<Rightarrow> Some (Inl e)
        | Inr (wire, iNdEx) \<Rightarrow>
            if unat (wire AND 7) = 0 then Some (skipVarint dAtA iNdEx 0)
            else if unat (wire AND 7) = 1 then Some (Inr (iNdEx + 8))
            else if unat (wire AND 7) = 2 then
              (case decodeVarint dAtA iNdEx 0 (0 :: 64 word) of
                 Inl e \<Rightarrow> Some (Inl e)
               | Inr (len, i) \<Rightarrow>
                   if sint len < 0 then Some (Inl ErrInvalidLengthRing)
                   else if i + unat len \<ge> 2 ^ 63 then Some (Inl ErrInvalidLengthRing)
                   else Some (Inr (i + unat len)))
            else if unat (wire AND 7) = 3 then skipGroup_fuel fuel dAtA iNdEx
            else if unat (wire AND 7) = 4 then Some (Inr iNdEx)
            else if unat (wire AND 7) = 5 then Some (Inr (iNdEx + 4))
            else Some (Inl (ErrIllegalWireType (unat (wire AND 7)))))"
| "skipGroup_fuel 0 dAtA start = None"
| "skipGroup_fuel (Suc fuel) dAtA start =
     (case decodeVarint dAtA start 0 (0 :: 64 word) of
        Inl e \<Rightarrow> Some (Inl e)
      | Inr (innerWire, iNdEx) \<Rightarrow>
          if unat (innerWire AND 7) = 4 then Some (Inr iNdEx)
          else (case skipRing_fuel fuel (drop start dAtA) of
                  None \<Rightarrow> None
                | Some (Inl e) \<Rightarrow> Some (Inl e)
                | Some (Inr next) \<Rightarrow>
                    if start + next \<ge> 2 ^ 63 then Some (Inl ErrInvalidLengthRing)
                    else skipGroup_fuel fuel dAtA (start + next)))"

definition skipRing :: "byte list \<Rightarrow> error + nat" where
  "skipRing dAtA =
     (case skipRing_fuel (2 * length dAtA + 1) dAtA of
        None \<Rightarrow> Inl PanicUnreachable
      | Some r \<Rightarrow> r)"

lemma decodeVarint_index:
  "decodeVarint dAtA iNdEx shift v = Inr (x, j) \<Longrightarrow> iNdEx < j \<and> j \<le> length dAtA"
proof (induction dAtA iNdEx shift v rule: decodeVarint.induct)
  case (1 dAtA iNdEx shift v)
  show ?case
  proof (cases "dAtA ! iNdEx < 0x80")
    case True
    with "1.prems" show ?thesis
      by (simp add: decodeVarint.simps [of dAtA iNdEx shift v] split: if_splits)
  next
    case False
    with "1.prems" have ok: "\<not> 64 \<le> shift" "\<not> length dAtA \<le> iNdEx"
      and rec: "decodeVarint dAtA (iNdEx + 1) (shift + 7)
                  (v OR push_bit shift (ucast (dAtA ! iNdEx AND 0x7F))) = Inr (x, j)"
      by (simp_all add: decodeVarint.simps [of dAtA iNdEx shift v] split: if_splits)
    from "1.IH" [OF ok False rec] show ?thesis
      by simp
  qed
qed

lemma skipVarint_index:
  "skipVarint dAtA iNdEx shift = Inr j \<Longrightarrow> iNdEx < j \<and> j \<le> length dAtA"
proof (induction dAtA iNdEx shift rule: skipVarint.induct)
  case (1 dAtA iNdEx shift)
  show ?case
  proof (cases "dAtA ! iNdEx < 0x80")
    case True
    with "1.prems" show ?thesis
      by (simp add: skipVarint.simps [of dAtA iNdEx shift] split: if_splits)
  next
    case False
    with "1.prems" have ok: "\<not> 64 \<le> shift" "\<not> length dAtA \<le> iNdEx"
      and rec: "skipVarint dAtA (iNdEx + 1) (shift + 7) = Inr j"
      by (simp_all add: skipVarint.simps [of dAtA iNdEx shift] split: if_splits)
    from "1.IH" [OF ok False rec] show ?thesis
      by simp
  qed
qed

lemma decodeLength_index:
  "decodeLength dAtA iNdEx = Inr (i, postIndex) \<Longrightarrow>
   iNdEx < i \<and> i \<le> postIndex \<and> postIndex \<le> length dAtA \<and> postIndex < 2 ^ 63"
  by (auto simp: decodeLength_def split: sum.splits prod.splits if_splits
      dest: decodeVarint_index)


lemma skip_fuel_index:
  "(skipRing_fuel fuel dAtA = Some (Inr n) \<longrightarrow> 0 < n)
   \<and> (skipGroup_fuel fuel dAtA start = Some (Inr n) \<longrightarrow> start < n)"
proof (induction fuel arbitrary: dAtA start n)
  case 0
  show ?case by simp
next
  case (Suc fuel)
  have g: "s < m" if "skipGroup_fuel fuel d s = Some (Inr m)" for d s m
    using that Suc.IH by blast
  have ring: "0 < n" if "skipRing_fuel (Suc fuel) dAtA = Some (Inr n)"
    using that
    by (auto split: if_splits sum.splits prod.splits
        dest!: decodeVarint_index skipVarint_index g)
  have group: "start < n" if "skipGroup_fuel (Suc fuel) dAtA start = Some (Inr n)"
    using that
    by (auto split: if_splits sum.splits prod.splits option.splits
        dest!: decodeVarint_index g)
  from ring group show ?case by blast
qed

lemma skip_fuel_enough:
  "(2 * length dAtA + 1 \<le> fuel \<longrightarrow> skipRing_fuel fuel dAtA \<noteq> None)
   \<and> (2 * (length dAtA - start) + 2 \<le> fuel \<longrightarrow> skipGroup_fuel fuel dAtA start \<noteq> None)"
proof (induction fuel arbitrary: dAtA start)
  case 0
  show ?case by simp
next
  case (Suc fuel)
  have ring: "skipRing_fuel (Suc fuel) dAtA \<noteq> None" if "2 * length dAtA + 1 \<le> Suc fuel"
  proof -
    have "skipGroup_fuel fuel dAtA i \<noteq> None" if "0 < i" "i \<le> length dAtA" for i
    proof -
      from that \<open>2 * length dAtA + 1 \<le> Suc fuel\<close> have "2 * (length dAtA - i) + 2 \<le> fuel"
        by simp
      with Suc.IH [of dAtA i] show ?thesis by blast
    qed
    then show ?thesis
      by (auto split: if_splits sum.splits prod.splits dest!: decodeVarint_index)
  qed
  have group: "skipGroup_fuel (Suc fuel) dAtA start \<noteq> None"
    if le: "2 * (length dAtA - start) + 2 \<le> Suc fuel"
  proof (cases "decodeVarint dAtA start 0 (0 :: 64 word)")
    case (Inl e)
    then show ?thesis by simp
  next
    case (Inr r)
    obtain innerWire iNdEx where r: "r = (innerWire, iNdEx)" by (cases r)
    from Inr r have idx: "start < iNdEx" "iNdEx \<le> length dAtA"
      using decodeVarint_index by blast+
    have a: "skipRing_fuel fuel (drop start dAtA) \<noteq> None"
      using Suc.IH [of "drop start dAtA" 0] le by simp
    have b: "skipGroup_fuel fuel dAtA (start + next) \<noteq> None" if "0 < next" for "next"
    proof -
      from that le idx have "2 * (length dAtA - (start + next)) + 2 \<le> fuel"
        by simp
      with Suc.IH [of dAtA "start + next"] show ?thesis by blast
    qed
    have c: "0 < next" if "skipRing_fuel fuel (drop start dAtA) = Some (Inr next)" for "next"
      using that skip_fuel_index [of fuel "drop start dAtA" "next" 0] by simp
    show ?thesis
      using Inr r a b c
      by (auto split: option.splits sum.splits)
  qed
  from ring group show ?case by blast
qed

lemma skipRing_fuel_enough: "skipRing_fuel (2 * length dAtA + 1) dAtA \<noteq> None"
  using skip_fuel_enough [of dAtA "2 * length dAtA + 1" 0] by simp

lemma skipRing_index: "skipRing dAtA = Inr n \<Longrightarrow> 0 < n"
  using skip_fuel_index [of "2 * length dAtA + 1" dAtA n 0]
  by (auto simp: skipRing_def split: option.splits)


text \<open>
  The \<open>default\<close> branch of both \<open>Unmarshal\<close> methods: the field that starts at
  \<open>preIndex\<close> is skipped.
\<close>

definition skipField :: "byte list \<Rightarrow> nat \<Rightarrow> error + nat" where
  "skipField dAtA preIndex =
     (case skipRing (drop preIndex dAtA) of
        Inl e \<Rightarrow> Inl e
      | Inr skippy \<Rightarrow>
          if preIndex + skippy \<ge> 2 ^ 63 then Inl ErrInvalidLengthRing
          else if preIndex + skippy > length dAtA then Inl ErrUnexpectedEOF
          else Inr (preIndex + skippy))"

lemma skipField_index: "skipField dAtA preIndex = Inr j \<Longrightarrow> preIndex < j \<and> j \<le> length dAtA"
  by (auto simp: skipField_def split: sum.splits if_splits dest: skipRing_index)

text \<open>The loop over a packed \<open>Tokens\<close> field, \<open>for iNdEx < postIndex\<close>.\<close>

function unpackTokens ::
  "byte list \<Rightarrow> nat \<Rightarrow> nat \<Rightarrow> 32 word list \<Rightarrow> error + (32 word list \<times> nat)" where
  "unpackTokens dAtA postIndex iNdEx tokens =
     (if iNdEx < postIndex
      then (case decodeVarint dAtA iNdEx 0 (0 :: 32 word) of
              Inl e \<Rightarrow> Inl e
            | Inr (v, i) \<Rightarrow> unpackTokens dAtA postIndex i (tokens @ [v]))
      else Inr (tokens, iNdEx))"
  by pat_completeness auto
termination
  by (relation "measure (\<lambda>(dAtA, postIndex, iNdEx, tokens). postIndex - iNdEx)")
     (auto dest!: decodeVarint_index sym [of "Inr _"])

declare unpackTokens.simps [simp del]

lemma unpackTokens_index:
  "unpackTokens dAtA postIndex iNdEx tokens = Inr (ts, j) \<Longrightarrow> iNdEx \<le> j"
proof (induction dAtA postIndex iNdEx tokens rule: unpackTokens.induct)
  case (1 dAtA postIndex iNdEx tokens)
  show ?case
  proof (cases "iNdEx < postIndex")
    case False
    with "1.prems" show ?thesis
      by (simp add: unpackTokens.simps [of dAtA postIndex iNdEx tokens])
  next
    case True
    with "1.prems" obtain v i where
      d: "decodeVarint dAtA iNdEx 0 (0 :: 32 word) = Inr (v, i)"
      and rec: "unpackTokens dAtA postIndex i (tokens @ [v]) = Inr (ts, j)"
      by (auto simp: unpackTokens.simps [of dAtA postIndex iNdEx tokens] split: sum.splits)
    from "1.IH" [OF True d refl rec] decodeVarint_index [OF d]
    show ?thesis by simp
  qed
qed

text \<open>
  One turn of the loop of \<open>IngesterDesc.Unmarshal\<close>: the field that starts at
  \<open>preIndex\<close> is decoded into \<open>m\<close>. The result is the descriptor and the index after
  the field. The capacity that the packed branch reserves for \<open>Tokens\<close> has no effect
  on the value and is left out.
\<close>

definition IngesterDesc_Unmarshal_field ::
  "byte list \<Rightarrow> nat \<Rightarrow> IngesterDesc \<Rightarrow> error + (IngesterDesc \<times> nat)" where
  "IngesterDesc_Unmarshal_field dAtA preIndex m =
     (case decodeVarint dAtA preIndex 0 (0 :: 64 word) of
        Inl e \<Rightarrow> Inl e
      | Inr (wire, iNdEx) \<Rightarrow>
          let fieldNum = (ucast (drop_bit 3 wire) :: 32 word);
              wireType = unat (wire AND 7)
          in
          if wireType = 4 then Inl ErrEndGroup
          else if sint fieldNum \<le> 0 then Inl (ErrIllegalTag fieldNum wire)
          else if fieldNum = 1 then
            (if wireType \<noteq> 2 then Inl (ErrWrongWireType wireType ''Addr'')
             else case decodeLength dAtA iNdEx of
                 Inl e \<Rightarrow> Inl e
               | Inr (i, postIndex) \<Rightarrow> Inr (m\<lparr>Addr := slice dAtA i postIndex\<rparr>, postIndex))
          else if fieldNum = 2 then
            (if wireType \<noteq> 0 then Inl (ErrWrongWireType wireType ''Timestamp'')
             else case decodeVarint dAtA iNdEx 0 (0 :: 64 word) of
                 Inl e \<Rightarrow> Inl e
               | Inr (v, i) \<Rightarrow> Inr (m\<lparr>Timestamp := v\<rparr>, i))
          else if fieldNum = 3 then
            (if wireType \<noteq> 0 then Inl (ErrWrongWireType wireType ''State'')
             else case decodeVarint dAtA iNdEx 0 (0 :: 32 word) of
                 Inl e \<Rightarrow> Inl e
               | Inr (v, i) \<Rightarrow> Inr (m\<lparr>State := v\<rparr>, i))
          else if fieldNum = 6 then
            (if wireType = 0 then
               (case decodeVarint dAtA iNdEx 0 (0 :: 32 word) of
                  Inl e \<Rightarrow> Inl e
                | Inr (v, i) \<Rightarrow> Inr (m\<lparr>Tokens := Tokens m @ [v]\<rparr>, i))
             else if wireType = 2 then
               (case decodeLength dAtA iNdEx of
                  Inl e \<Rightarrow> Inl e
                | Inr (i, postIndex) \<Rightarrow>
                    (case unpackTokens dAtA postIndex i (Tokens m) of
                       Inl e \<Rightarrow> Inl e
                     | Inr (ts, i') \<Rightarrow> Inr (m\<lparr>Tokens := ts\<rparr>, i')))
             else Inl (ErrWrongWireType wireType ''Tokens''))
          else (case skipField dAtA preIndex of
                  Inl e \<Rightarrow> Inl e
                | Inr i \<Rightarrow> Inr (m, i)))"

lemma IngesterDesc_Unmarshal_field_index:
  "IngesterDesc_Unmarshal_field dAtA preIndex m = Inr (m', j) \<Longrightarrow> preIndex < j"
  unfolding IngesterDesc_Unmarshal_field_def Let_def
  by (auto split: sum.splits prod.splits if_splits
      dest!: decodeVarint_index decodeLength_index unpackTokens_index skipField_index)

function IngesterDesc_Unmarshal_loop ::
  "byte list \<Rightarrow> nat \<Rightarrow> IngesterDesc \<Rightarrow> error + IngesterDesc" where
  "IngesterDesc_Unmarshal_loop dAtA iNdEx m =
     (if iNdEx < length dAtA
      then (case IngesterDesc_Unmarshal_field dAtA iNdEx m of
              Inl e \<Rightarrow> Inl e
            | Inr (m', i) \<Rightarrow> IngesterDesc_Unmarshal_loop dAtA i m')
      else if iNdEx > length dAtA then Inl ErrUnexpectedEOF
      else Inr m)"
  by pat_completeness auto
termination
  by (relation "measure (\<lambda>(dAtA, iNdEx, m). length dAtA - iNdEx)")
     (auto dest!: IngesterDesc_Unmarshal_field_index sym [of "Inr _"])

declare IngesterDesc_Unmarshal_loop.simps [simp del]

definition IngesterDesc_Unmarshal :: "byte list \<Rightarrow> IngesterDesc \<Rightarrow> error + IngesterDesc" where
  "IngesterDesc_Unmarshal dAtA m = IngesterDesc_Unmarshal_loop dAtA 0 m"

text \<open>
  One turn of the loop over a map entry in \<open>Desc.Unmarshal\<close>, \<open>for iNdEx < postIndex\<close>:
  field 1 is the key, field 2 the value, anything else is skipped. In the last branch the
  sum \<open>iNdEx + skippy\<close> is not checked for overflow; a negative index would be used
  on the next turn.
\<close>

definition Desc_Unmarshal_entry_field ::
  "byte list \<Rightarrow> nat \<Rightarrow> nat \<Rightarrow> gostring \<times> IngesterDesc
     \<Rightarrow> error + ((gostring \<times> IngesterDesc) \<times> nat)" where
  "Desc_Unmarshal_entry_field dAtA postIndex entryPreIndex kv =
     (case decodeVarint dAtA entryPreIndex 0 (0 :: 64 word) of
        Inl e \<Rightarrow> Inl e
      | Inr (wire, iNdEx) \<Rightarrow>
          let fieldNum = (ucast (drop_bit 3 wire) :: 32 word) in
          if fieldNum = 1 then
            (case decodeLength dAtA iNdEx of
               Inl e \<Rightarrow> Inl e
             | Inr (i, postStringIndexmapkey) \<Rightarrow>
                 Inr ((slice dAtA i postStringIndexmapkey, snd kv), postStringIndexmapkey))
          else if fieldNum = 2 then
            (case decodeLength dAtA iNdEx of
               Inl e \<Rightarrow> Inl e
             | Inr (i, postmsgIndex) \<Rightarrow>
                 (case IngesterDesc_Unmarshal (slice dAtA i postmsgIndex) IngesterDesc_zero of
                    Inl e \<Rightarrow> Inl e
                  | Inr mapvalue \<Rightarrow> Inr ((fst kv, mapvalue), postmsgIndex)))
          else
            (case skipRing (drop entryPreIndex dAtA) of
               Inl e \<Rightarrow> Inl e
             | Inr skippy \<Rightarrow>
                 if entryPreIndex + skippy \<ge> 2 ^ 63 then Inl PanicIndexOutOfRange
                 else if entryPreIndex + skippy > postIndex then Inl ErrUnexpectedEOF
                 else Inr (kv, entryPreIndex + skippy)))"

lemma Desc_Unmarshal_entry_field_index:
  "Desc_Unmarshal_entry_field dAtA postIndex entryPreIndex kv = Inr (kv', j)
   \<Longrightarrow> entryPreIndex < j"
  unfolding Desc_Unmarshal_entry_field_def Let_def
  by (auto split: sum.splits prod.splits if_splits
      dest!: decodeVarint_index decodeLength_index skipRing_index)

function Desc_Unmarshal_entry_loop ::
  "byte list \<Rightarrow> nat \<Rightarrow> nat \<Rightarrow> gostring \<times> IngesterDesc
     \<Rightarrow> error + (gostring \<times> IngesterDesc)" where
  "Desc_Unmarshal_entry_loop dAtA postIndex iNdEx kv =
     (if iNdEx < postIndex
      then (case Desc_Unmarshal_entry_field dAtA postIndex iNdEx kv of
              Inl e \<Rightarrow> Inl e
            | Inr (kv', i) \<Rightarrow> Desc_Unmarshal_entry_loop dAtA postIndex i kv')
      else Inr kv)"
  by pat_completeness auto
termination
  by (relation "measure (\<lambda>(dAtA, postIndex, iNdEx, kv). postIndex - iNdEx)")
     (auto dest!: Desc_Unmarshal_entry_field_index sym [of "Inr _"])

declare Desc_Unmarshal_entry_loop.simps [simp del]

text \<open>
  One turn of the loop of \<open>Desc.Unmarshal\<close>. Field 1 is one map entry: the key starts
  as the empty string and the value as a zero descriptor, and after the entry's fields
  \<open>m.Ingesters[mapkey] = *mapvalue\<close> is executed and the index set to \<open>postIndex\<close>.
\<close>

definition Desc_Unmarshal_field :: "byte list \<Rightarrow> nat \<Rightarrow> Desc \<Rightarrow> error + (Desc \<times> nat)" where
  "Desc_Unmarshal_field dAtA preIndex m =
     (case decodeVarint dAtA preIndex 0 (0 :: 64 word) of
        Inl e \<Rightarrow> Inl e
      | Inr (wire, iNdEx) \<Rightarrow>
          let fieldNum = (ucast (drop_bit 3 wire) :: 32 word);
              wireType = unat (wire AND 7)
          in
          if wireType = 4 then Inl ErrEndGroup
          else if sint fieldNum \<le> 0 then Inl (ErrIllegalTag fieldNum wire)
          else if fieldNum = 1 then
            (if wireType \<noteq> 2 then Inl (ErrWrongWireType wireType ''Ingesters'')
             else case decodeLength dAtA iNdEx of
                 Inl e \<Rightarrow> Inl e
               | Inr (i, postIndex) \<Rightarrow>
                   (case Desc_Unmarshal_entry_loop dAtA postIndex i ([], IngesterDesc_zero) of
                      Inl e \<Rightarrow> Inl e
                    | Inr (mapkey, mapvalue) \<Rightarrow>
                        Inr (m\<lparr>Ingesters := map_assign (Ingesters m) mapkey mapvalue\<rparr>,
                             postIndex)))
          else (case skipField dAtA preIndex of
                  Inl e \<Rightarrow> Inl e
                | Inr i \<Rightarrow> Inr (m, i)))"

lemma Desc_Unmarshal_field_index:
  "Desc_Unmarshal_field dAtA preIndex m = Inr (m', j) \<Longrightarrow> preIndex < j"
  unfolding Desc_Unmarshal_field_def Let_def
  by (auto split: sum.splits prod.splits if_splits
      dest!: decodeVarint_index decodeLength_index skipField_index)

function Desc_Unmarshal_loop :: "byte list \<Rightarrow> nat \<Rightarrow> Desc \<Rightarrow> error + Desc" where
  "Desc_Unmarshal_loop dAtA iNdEx m =
     (if iNdEx < length dAtA
      then (case Desc_Unmarshal_field dAtA iNdEx m of
              Inl e \<Rightarrow> Inl e
            | Inr (m', i) \<Rightarrow> Desc_Unmarshal_loop dAtA i m')
      else if iNdEx > length dAtA then Inl ErrUnexpectedEOF
      else Inr m)"
  by pat_completeness auto
termination
  by (relation "measure (\<lambda>(dAtA, iNdEx, m). length dAtA - iNdEx)")
     (auto dest!: Desc_Unmarshal_field_index sym [of "Inr _"])

declare Desc_Unmarshal_loop.simps [simp del]

definition Desc_Unmarshal :: "byte list \<Rightarrow> Desc \<Rightarrow> error + Desc" where
  "Desc_Unmarshal dAtA m = Desc_Unmarshal_loop dAtA 0 m"

subsection \<open>Fields on the wire\<close>

text \<open>
  The fields of a serialized message as they lie on the wire: at each tag the field number
  and the wire type are read the way both \<open>Unmarshal\<close> methods read them, and the
  field is stepped over with \<open>skipRing\<close>, the way they step over a field they do not
  know. This is an observation of the bytes, used to state which fields a record carries.
\<close>

function wire_fields ::
  "byte list \<Rightarrow> nat \<Rightarrow> (32 word \<times> nat) list \<Rightarrow> error + (32 word \<times> nat) list" where
  "wire_fields dAtA iNdEx acc =
     (if iNdEx < length dAtA
      then (case decodeVarint dAtA iNdEx 0 (0 :: 64 word) of
              Inl e \<Rightarrow> Inl e
            | Inr (wire, i) \<Rightarrow>
                (case skipField dAtA iNdEx of
                   Inl e \<Rightarrow> Inl e
                 | Inr j \<Rightarrow>
                     wire_fields dAtA j (acc @ [(ucast (drop_bit 3 wire), unat (wire AND 7))])))
      else Inr acc)"
  by pat_completeness auto
termination
  by (relation "measure (\<lambda>(dAtA, iNdEx, acc). length dAtA - iNdEx)")
     (auto dest!: skipField_index sym [of "Inr _"])

declare wire_fields.simps [simp del]

section \<open>Replication strategies (pkg/ring, exercised by replication_strategy_test.go)\<close>

text \<open>
  Modelled from the spec: the type \<open>Operation\<close> is not among the sources; the test
  passes \<open>Read\<close>. Section 3 lists the three operations.
\<close>

datatype Operation = Read | Write | Reporting

text \<open>\<open>%d\<close> of \<open>fmt.Errorf\<close>: a decimal numeral, with a minus sign when negative.\<close>

function fmt_nat :: "nat \<Rightarrow> string" where
  "fmt_nat n =
     (if n < 10 then [''0123456789'' ! n]
      else fmt_nat (n div 10) @ [''0123456789'' ! (n mod 10)])"
  by pat_completeness auto
termination
  by (relation "measure id") auto

declare fmt_nat.simps [simp del]

definition fmt_d :: "int \<Rightarrow> string" where
  "fmt_d i = (if i < 0 then CHR ''-'' # fmt_nat (nat (- i)) else fmt_nat (nat i))"



text \<open>
  Modelled from the spec: the states an operation accepts are not among the sources.
  Section 3: writes need ACTIVE, reads also accept LEAVING, reporting accepts every state.
\<close>

definition allowedStates :: "Operation \<Rightarrow> IngesterState \<Rightarrow> bool" where
  "allowedStates op s =
     (case op of
        Write \<Rightarrow> s = ACTIVE
      | Read \<Rightarrow> s = ACTIVE \<or> s = LEAVING
      | Reporting \<Rightarrow> True)"

text \<open>
  Modelled from the spec: \<open>IngesterDesc.IsHealthy\<close> is not among the sources. Section
  4.2: an instance is eligible when its state is accepted by the operation and
  \<open>now - heartbeat \<le> timeout\<close>, the heartbeat being a Unix second. The clock reading
  \<open>now\<close> and the timeout are in seconds, and \<open>now\<close> is an argument.
\<close>

definition IsHealthy :: "IngesterDesc \<Rightarrow> Operation \<Rightarrow> int \<Rightarrow> int \<Rightarrow> bool" where
  "IsHealthy i op heartbeatTimeout now =
     (allowedStates op (State i) \<and> now - sint (Timestamp i) \<le> heartbeatTimeout)"

text \<open>
  Modelled from the spec: the body of the default strategy's \<open>Filter\<close> is not among the
  sources. Section 4.3: the candidates are filtered for health, the required minimum of
  successes is \<open>floor(rf/2) + 1\<close>, \<open>maxErrors = n - required\<close> for the \<open>n\<close> candidates
  that remain, and the call fails when \<open>n < required\<close>, with the error text given there.
  The arguments are those section 4.3 lists, with the clock reading added.
\<close>

definition defaultReplicationStrategy_Filter ::
  "IngesterDesc list \<Rightarrow> Operation \<Rightarrow> int \<Rightarrow> int \<Rightarrow> bool \<Rightarrow> int
     \<Rightarrow> string + (IngesterDesc list \<times> int)" where
  "defaultReplicationStrategy_Filter ingesters op replicationFactor heartbeatTimeout
       zoneAwarenessEnabled now =
     (let required = replicationFactor div 2 + 1;
          healthy = filter (\<lambda>i. IsHealthy i op heartbeatTimeout now) ingesters
      in if int (length healthy) < required
         then Inl (''at least '' @ fmt_d required
                   @ '' live replicas required, could only find ''
                   @ fmt_d (int (length healthy)))
         else Inr (healthy, int (length healthy) - required))"

text \<open>
  Modelled from the spec: the body of the ignore-unhealthy strategy's \<open>Filter\<close> is not
  among the sources. Section 4.3: one success is required, \<open>maxErrors = n - 1\<close> when at
  least one healthy instance remains, and a fixed error otherwise.
\<close>

definition ignoreUnhealthyInstancesReplicationStrategy_Filter ::
  "IngesterDesc list \<Rightarrow> Operation \<Rightarrow> int \<Rightarrow> int \<Rightarrow> bool \<Rightarrow> int
     \<Rightarrow> string + (IngesterDesc list \<times> int)" where
  "ignoreUnhealthyInstancesReplicationStrategy_Filter ingesters op replicationFactor
       heartbeatTimeout zoneAwarenessEnabled now =
     (let healthy = filter (\<lambda>i. IsHealthy i op heartbeatTimeout now) ingesters
      in if length healthy = 0
         then Inl ''at least 1 healthy replica required, could only find 0''
         else Inr (healthy, int (length healthy) - 1))"

subsection \<open>The test tables of replication_strategy_test.go\<close>

record strategy_case =
  replifcationFactor :: int
  liveIngesters :: nat
  deadIngesters :: nat
  expectedMaxFailure :: int
  expectedError :: string

definition TestRingReplicationStrategy_cases :: "strategy_case list" where
  "TestRingReplicationStrategy_cases =
     [\<lparr>replifcationFactor = 1, liveIngesters = 1, deadIngesters = 0,
       expectedMaxFailure = 0, expectedError = []\<rparr>,
      \<lparr>replifcationFactor = 1, liveIngesters = 0, deadIngesters = 1,
       expectedMaxFailure = 0,
       expectedError = ''at least 1 live replicas required, could only find 0''\<rparr>,
      \<lparr>replifcationFactor = 3, liveIngesters = 2, deadIngesters = 0,
       expectedMaxFailure = 0, expectedError = []\<rparr>,
      \<lparr>replifcationFactor = 3, liveIngesters = 3, deadIngesters = 0,
       expectedMaxFailure = 1, expectedError = []\<rparr>,
      \<lparr>replifcationFactor = 3, liveIngesters = 2, deadIngesters = 1,
       expectedMaxFailure = 0, expectedError = []\<rparr>,
      \<lparr>replifcationFactor = 3, liveIngesters = 1, deadIngesters = 2,
       expectedMaxFailure = 0,
       expectedError = ''at least 2 live replicas required, could only find 1''\<rparr>,
      \<lparr>replifcationFactor = 3, liveIngesters = 4, deadIngesters = 0,
       expectedMaxFailure = 1, expectedError = []\<rparr>,
      \<lparr>replifcationFactor = 3, liveIngesters = 3, deadIngesters = 1,
       expectedMaxFailure = 0, expectedError = []\<rparr>,
      \<lparr>replifcationFactor = 3, liveIngesters = 2, deadIngesters = 2,
       expectedMaxFailure = 0,
       expectedError = ''at least 3 live replicas required, could only find 2''\<rparr>]"

text \<open>
  The ignore-unhealthy table has no replication factor column; the test passes 3. The
  case names are left out.
\<close>

definition TestIgnoreUnhealthyInstancesReplicationStrategy_cases :: "strategy_case list" where
  "TestIgnoreUnhealthyInstancesReplicationStrategy_cases =
     [\<lparr>replifcationFactor = 3, liveIngesters = 1, deadIngesters = 0,
       expectedMaxFailure = 0, expectedError = []\<rparr>,
      \<lparr>replifcationFactor = 3, liveIngesters = 2, deadIngesters = 1,
       expectedMaxFailure = 1, expectedError = []\<rparr>,
      \<lparr>replifcationFactor = 3, liveIngesters = 2, deadIngesters = 1,
       expectedMaxFailure = 1, expectedError = []\<rparr>,
      \<lparr>replifcationFactor = 3, liveIngesters = 2, deadIngesters = 2,
       expectedMaxFailure = 1, expectedError = []\<rparr>,
      \<lparr>replifcationFactor = 3, liveIngesters = 0, deadIngesters = 3,
       expectedMaxFailure = 0,
       expectedError = ''at least 1 healthy replica required, could only find 0''\<rparr>]"

text \<open>
  The ingesters a test case builds: the live ones carry the current Unix time as their
  timestamp, the dead ones are zero values.
\<close>

definition case_ingesters :: "int \<Rightarrow> strategy_case \<Rightarrow> IngesterDesc list" where
  "case_ingesters now tc =
     replicate (liveIngesters tc) (IngesterDesc_zero\<lparr>Timestamp := word_of_int now\<rparr>)
     @ replicate (deadIngesters tc) IngesterDesc_zero"

text \<open>
  The body of \<open>t.Run\<close>: the strategy is called with \<open>Read\<close>, the case's replication
  factor, a timeout of 100 seconds and zone awareness off; then either no error, the live
  count and the expected maximum of failures, or the expected error text.
\<close>

definition case_passes ::
  "(IngesterDesc list \<Rightarrow> Operation \<Rightarrow> int \<Rightarrow> int \<Rightarrow> bool \<Rightarrow> int
      \<Rightarrow> string + (IngesterDesc list \<times> int))
   \<Rightarrow> int \<Rightarrow> strategy_case \<Rightarrow> bool" where
  "case_passes strategy now tc =
     (case strategy (case_ingesters now tc) Read (replifcationFactor tc) 100 False now of
        Inl err \<Rightarrow> expectedError tc \<noteq> [] \<and> err = expectedError tc
      | Inr (live, maxFailure) \<Rightarrow>
          expectedError tc = [] \<and> length live = liveIngesters tc
          \<and> maxFailure = expectedMaxFailure tc)"


section \<open>Token generation (pkg/ring, called by the ring benchmark and the alertmanager tests)\<close>

text \<open>
  Modelled from the spec: \<open>GenerateTokens\<close> is not among the sources, only calls of it
  are. Section 4.1: \<open>k\<close> new tokens are drawn from a pseudo-random generator, a value
  present in the taken set is rejected, and the tokens are appended in the order drawn.
  Section 3 has the tokens unique across the ring, enforced at generation, so a value
  accepted earlier in the same call is rejected as well. The generator is the argument
  \<open>r\<close>, the sequence of its draws, and \<open>pos\<close> counts the draws made. The loop runs
  until enough candidates have been accepted; when the generator never delivers them it
  does not return, which is the value \<open>None\<close>.
\<close>

partial_function (option) GenerateTokens_loop ::
  "(nat \<Rightarrow> 32 word) \<Rightarrow> int \<Rightarrow> nat \<Rightarrow> int \<Rightarrow> 32 word set \<Rightarrow> 32 word list
     \<Rightarrow> 32 word list option" where
  "GenerateTokens_loop r numTokens pos i used tokens =
     (if i < numTokens
      then (if r pos \<in> used
            then GenerateTokens_loop r numTokens (pos + 1) i used tokens
            else GenerateTokens_loop r numTokens (pos + 1) (i + 1)
                   (insert (r pos) used) (tokens @ [r pos]))
      else Some tokens)"

text \<open>
  Modelled from the spec: the entry point, with the count and the taken tokens of its
  callers (\<open>GenerateTokens(numTokens, takenTokens)\<close>). The used set starts as the
  taken tokens and the result as the empty list.
\<close>

definition GenerateTokens ::
  "int \<Rightarrow> 32 word list \<Rightarrow> (nat \<Rightarrow> 32 word) \<Rightarrow> 32 word list option" where
  "GenerateTokens numTokens takenTokens r =
     GenerateTokens_loop r numTokens 0 0 (set takenTokens) []"

text \<open>A generator whose first draws are 5, 7, 7 and 9, for the examples.\<close>

definition draws_example :: "nat \<Rightarrow> 32 word" where
  "draws_example n = (if n = 0 then 5 else if n = 1 then 7 else if n = 2 then 7 else 9)"

section \<open>Example values\<close>

definition example_ingester :: IngesterDesc where
  "example_ingester = \<lparr>Addr = [0x61], Timestamp = 1, State = 4, Tokens = [1, 300]\<rparr>"

definition example_desc :: Desc where
  "example_desc = \<lparr>Ingesters = [([0x61], example_ingester), ([], IngesterDesc_zero)]\<rparr>"

section \<open>Varints\<close>

lemma low7_or_rest: "(w AND 0x7f) OR push_bit 7 (drop_bit 7 w) = w" for w :: "64 word"
proof -
  have "(0x7f :: 64 word) = mask 7" by (simp add: mask_eq_exp_minus_1)
  then have "w AND 0x7f = take_bit 7 w"
    by (simp add: take_bit_eq_mask)
  moreover have "take_bit 7 w OR push_bit 7 (drop_bit 7 w) = w"
  proof (rule bit_eqI)
    fix n
    show "bit (take_bit 7 w OR push_bit 7 (drop_bit 7 w)) n = bit w n"
      by (cases "n < 7") (auto simp: bit_simps dest: bit_imp_le_length)
  qed
  ultimately show ?thesis by simp
qed

lemma ucast_or_byte: "(ucast (a OR b :: 64 word) :: byte) = ucast a OR ucast b"
  by (rule bit_eqI) (auto simp: bit_simps)

lemma continuation_byte_ge: "(0x80 :: byte) \<le> ucast (w AND 0x7f OR 0x80 :: 64 word)"
proof -
  have "(ucast (w AND 0x7f OR 0x80 :: 64 word) :: byte) = ucast (w AND 0x7f) OR 0x80"
    by (simp add: ucast_or_byte)
  then show ?thesis
    by (simp add: le_word_or1)
qed

lemma ucast_byte_low7: "(ucast ((ucast v :: byte) AND 0x7F) :: 64 word) = v AND 0x7f"
  for v :: "64 word"
proof -
  have m: "(0x7f :: 64 word) = mask 7" "(0x7f :: byte) = mask 7"
    by (simp_all add: mask_eq_exp_minus_1)
  show ?thesis
    unfolding m
    by (rule bit_eqI) (auto simp: bit_simps)
qed

lemma continuation_byte_low7: "(ucast ((ucast (w AND 0x7f OR 0x80) :: byte) AND 0x7F) :: 64 word) = w AND 0x7f"
  for w :: "64 word"
  by (simp add: ucast_byte_low7 bit.conj_disj_distrib2)

lemma small_low7: "\<not> v \<ge> 0x80 \<Longrightarrow> v AND 0x7f = v" for v :: "64 word"
proof -
  assume "\<not> v \<ge> 0x80"
  then have "v < 2 ^ 7" by simp
  then have "take_bit 7 v = v"
    by (simp add: mod_word_less take_bit_eq_mod)
  moreover have "(0x7f :: 64 word) = mask 7" by (simp add: mask_eq_exp_minus_1)
  ultimately show ?thesis
    by (simp add: take_bit_eq_mask)
qed

lemma unat_drop_bit_7: "unat (drop_bit 7 w) = unat w div 128" for w :: "'a::len word"
proof -
  have "unat (drop_bit 7 w) = drop_bit 7 (unat w)"
    by (rule unat_drop_bit_eq)
  also have "\<dots> = unat w div 2 ^ 7"
    by (rule drop_bit_eq_div)
  finally show ?thesis by simp
qed

lemma final_byte_less: "\<not> v \<ge> 0x80 \<Longrightarrow> (ucast v :: byte) < 0x80" for v :: "64 word"
proof -
  assume "\<not> v \<ge> 0x80"
  then have "unat v < 128"
    by (simp add: word_le_nat_alt)
  then have "unat (ucast v :: byte) < 128"
    by (simp add: unsigned_ucast_eq take_bit_eq_mod)
  then show ?thesis
    by (simp add: word_less_nat_alt)
qed

lemma ge_128_drop_bit: "v \<ge> 0x80 \<Longrightarrow> drop_bit 7 v \<noteq> 0" for v :: "64 word"
proof -
  assume "v \<ge> 0x80"
  then have "128 \<le> unat v"
    by (simp add: word_le_nat_alt)
  then have "unat (drop_bit 7 v) \<noteq> 0"
    unfolding unat_drop_bit_7 by simp
  then show ?thesis
    by auto
qed

lemma less_128_drop_bit: "\<not> v \<ge> 0x80 \<Longrightarrow> drop_bit 7 v = 0" for v :: "64 word"
proof -
  assume "\<not> v \<ge> 0x80"
  then have "unat v < 128"
    by (simp add: word_le_nat_alt)
  then have "unat (drop_bit 7 v) = 0"
    unfolding unat_drop_bit_7 by simp
  then show ?thesis
    by (simp only: unat_eq_0)
qed

lemma encodeVarintRing_length: "length (encodeVarintRing v) = sovRing v"
proof (induction v rule: encodeVarintRing.induct)
  case (1 v)
  show ?case
  proof (cases "v \<ge> 0x80")
    case True
    with "1.IH" ge_128_drop_bit [OF True] show ?thesis
      by (subst encodeVarintRing.simps, subst sovRing.simps) simp
  next
    case False
    with less_128_drop_bit [OF False] show ?thesis
      by (subst encodeVarintRing.simps, subst sovRing.simps) simp
  qed
qed

lemma decodeVarint_encodeVarintRing_gen:
  fixes w acc :: "64 word"
  assumes "shift < 64" "drop_bit (64 - shift) w = 0"
  shows "decodeVarint (pre @ encodeVarintRing w @ post) (length pre) shift acc
         = Inr (acc OR push_bit shift w, length pre + length (encodeVarintRing w))"
  using assms
proof (induction w arbitrary: pre shift acc rule: encodeVarintRing.induct)
  case (1 v)
  show ?case
  proof (cases "v \<ge> 0x80")
    case False
    have enc: "encodeVarintRing v = [ucast v]"
      using False by (simp add: encodeVarintRing.simps [of v])
    have val: "(ucast ((ucast v :: byte) AND 0x7F) :: 64 word) = v"
      using False by (simp add: ucast_byte_low7 small_low7)
    show ?thesis
      using "1.prems"(1) final_byte_less [OF False] val
      by (simp add: enc decodeVarint.simps [of "pre @ ucast v # post" "length pre" shift acc])
  next
    case True
    define b :: byte where "b = ucast (v AND 0x7f OR 0x80)"
    have enc: "encodeVarintRing v = b # encodeVarintRing (drop_bit 7 v)"
      using True by (simp add: encodeVarintRing.simps [of v] b_def)
    have nb: "\<not> b < 0x80"
      using continuation_byte_ge [of v] by (simp add: b_def not_less)
    have val: "(ucast (b AND 0x7F) :: 64 word) = v AND 0x7f"
      by (simp add: b_def continuation_byte_low7)
    have sh: "shift + 7 < 64"
    proof (rule ccontr)
      assume "\<not> shift + 7 < 64"
      then have "7 = (7 - (64 - shift)) + (64 - shift)"
        using "1.prems"(1) by simp
      then have "drop_bit 7 v = drop_bit (7 - (64 - shift)) (drop_bit (64 - shift) v)"
        by (metis drop_bit_drop_bit)
      with "1.prems"(2) have "drop_bit 7 v = 0" by simp
      with ge_128_drop_bit [OF True] show False by simp
    qed
    have rest: "drop_bit (64 - (shift + 7)) (drop_bit 7 v) = 0"
    proof -
      have "64 - (shift + 7) + 7 = 64 - shift" using sh by simp
      then show ?thesis
        using "1.prems"(2) by (simp add: drop_bit_drop_bit)
    qed
    have ih: "decodeVarint ((pre @ [b]) @ encodeVarintRing (drop_bit 7 v) @ post)
                (length (pre @ [b])) (shift + 7) (acc OR push_bit shift (v AND 0x7f))
              = Inr ((acc OR push_bit shift (v AND 0x7f)) OR push_bit (shift + 7) (drop_bit 7 v),
                     length (pre @ [b]) + length (encodeVarintRing (drop_bit 7 v)))"
      by (rule "1.IH" [OF True sh rest])
    have "push_bit shift (v AND 0x7f) OR push_bit (shift + 7) (drop_bit 7 v)
          = push_bit shift ((v AND 0x7f) OR push_bit 7 (drop_bit 7 v))"
      by (simp add: push_bit_or push_bit_push_bit add.commute)
    then have comb: "(acc OR push_bit shift (v AND 0x7f)) OR push_bit (shift + 7) (drop_bit 7 v)
          = acc OR push_bit shift v"
      by (simp add: low7_or_rest or.assoc)
    have step: "decodeVarint (pre @ (b # encodeVarintRing (drop_bit 7 v)) @ post) (length pre) shift acc
          = decodeVarint (pre @ (b # encodeVarintRing (drop_bit 7 v)) @ post) (length pre + 1)
              (shift + 7) (acc OR push_bit shift (v AND 0x7f))"
      using "1.prems"(1) nb val
      by (subst decodeVarint.simps) simp
    have "decodeVarint (pre @ encodeVarintRing v @ post) (length pre) shift acc
          = Inr ((acc OR push_bit shift (v AND 0x7f)) OR push_bit (shift + 7) (drop_bit 7 v),
                 length pre + length (encodeVarintRing v))"
      using ih step by (simp add: enc)
    then show ?thesis
      by (simp only: comb)
  qed
qed

lemma decodeVarint_encodeVarintRing:
  "decodeVarint (pre @ encodeVarintRing w @ post) (length pre) 0 (0 :: 64 word)
   = Inr (w, length pre + length (encodeVarintRing w))"
  using decodeVarint_encodeVarintRing_gen [of 0 w pre post 0] by simp

lemma ucast_or_push_bit_32:
  "(ucast (acc OR push_bit shift (ucast x) :: 64 word) :: 32 word)
   = ucast acc OR push_bit shift (ucast x)" for x :: byte
  by (rule bit_eqI) (auto simp: bit_simps)

lemma decodeVarint_ucast32:
  fixes acc :: "64 word"
  shows "decodeVarint dAtA iNdEx shift (ucast acc :: 32 word)
         = (case decodeVarint dAtA iNdEx shift acc of
              Inl e \<Rightarrow> Inl e
            | Inr (v, j) \<Rightarrow> Inr (ucast v, j))"
proof (induction dAtA iNdEx shift acc rule: decodeVarint.induct)
  case (1 dAtA iNdEx shift v)
  show ?case
  proof (cases "shift \<ge> 64 \<or> iNdEx \<ge> length dAtA \<or> dAtA ! iNdEx < 0x80")
    case True
    then show ?thesis
      by (subst decodeVarint.simps, subst (2) decodeVarint.simps)
         (auto simp: ucast_or_push_bit_32)
  next
    case False
    then have c: "\<not> 64 \<le> shift" "\<not> length dAtA \<le> iNdEx" "\<not> dAtA ! iNdEx < 0x80"
      by simp_all
    have "decodeVarint dAtA iNdEx shift (ucast v :: 32 word)
          = decodeVarint dAtA (iNdEx + 1) (shift + 7)
              (ucast (v OR push_bit shift (ucast (dAtA ! iNdEx AND 0x7F))) :: 32 word)"
      using c by (subst decodeVarint.simps) (simp add: ucast_or_push_bit_32)
    also have "\<dots> = (case decodeVarint dAtA (iNdEx + 1) (shift + 7)
                            (v OR push_bit shift (ucast (dAtA ! iNdEx AND 0x7F))) of
                        Inl e \<Rightarrow> Inl e | Inr (v, j) \<Rightarrow> Inr (ucast v, j))"
      by (rule "1.IH" [OF c])
    also have "decodeVarint dAtA (iNdEx + 1) (shift + 7)
                 (v OR push_bit shift (ucast (dAtA ! iNdEx AND 0x7F)))
               = decodeVarint dAtA iNdEx shift v"
      using c by (subst (2) decodeVarint.simps) simp
    finally show ?thesis .
  qed
qed

lemma decodeVarint32_encodeVarintRing:
  "decodeVarint (pre @ encodeVarintRing w @ post) (length pre) 0 (0 :: 32 word)
   = Inr (ucast w, length pre + length (encodeVarintRing w))"
  using decodeVarint_ucast32 [of "pre @ encodeVarintRing w @ post" "length pre" 0 0]
  by (simp add: decodeVarint_encodeVarintRing)

lemma ucast_drop_bit_7: "(ucast (drop_bit 7 num) :: 64 word) = drop_bit 7 (ucast num)"
  for num :: "32 word"
  by (rule bit_eqI) (auto simp: bit_simps dest: bit_imp_le_length)

lemma ucast_ge_128: "(0x80 \<le> (ucast num :: 64 word)) = (0x80 \<le> num)" for num :: "32 word"
proof -
  have "unat num < 2 ^ 32"
    using unsigned_less [of num, where ?'a = nat] by simp
  then have "unat num mod 18446744073709551616 = unat num"
    by simp
  then show ?thesis
    by (simp add: word_le_nat_alt unsigned_ucast_eq take_bit_eq_mod)
qed

lemma ucast_ucast_byte: "(ucast (ucast num :: 64 word) :: byte) = ucast num" for num :: "32 word"
  by (rule bit_eqI) (auto simp: bit_simps)

lemma packToken_eq: "packToken num = encodeVarintRing (ucast num)"
proof (induction num rule: packToken.induct)
  case (1 num)
  show ?case
  proof (cases "num \<ge> 0x80")
    case True
    with "1.IH" show ?thesis
      by (subst packToken.simps, subst encodeVarintRing.simps)
         (simp add: ucast_ge_128 ucast_drop_bit_7)
  next
    case False
    then show ?thesis
      by (subst packToken.simps, subst encodeVarintRing.simps)
         (simp add: ucast_ge_128 ucast_ucast_byte)
  qed
qed

lemma ucast_ucast_32: "(ucast (ucast num :: 64 word) :: 32 word) = num" for num :: "32 word"
  by (rule bit_eqI) (auto simp: bit_simps)

lemma ucast_scast_32: "(ucast (scast s :: 64 word) :: 32 word) = s" for s :: "32 word"
  by (rule bit_eqI) (auto simp: bit_simps)

lemma decodeVarint32_packToken:
  "decodeVarint (pre @ packToken t @ post) (length pre) 0 (0 :: 32 word)
   = Inr (t, length pre + length (packToken t))"
  by (simp add: packToken_eq decodeVarint32_encodeVarintRing ucast_ucast_32)

lemma packToken_nonempty: "0 < length (packToken t)"
  by (subst packToken.simps) simp

lemma unpackTokens_packed:
  "unpackTokens (pre @ concat (map packToken ts) @ post)
     (length pre + length (concat (map packToken ts))) (length pre) acc
   = Inr (acc @ ts, length pre + length (concat (map packToken ts)))"
proof (induction ts arbitrary: pre acc)
  case Nil
  show ?case
    by (subst unpackTokens.simps) simp
next
  case (Cons t ts)
  have d: "decodeVarint (pre @ packToken t @ concat (map packToken ts) @ post) (length pre) 0
             (0 :: 32 word) = Inr (t, length pre + length (packToken t))"
    by (rule decodeVarint32_packToken)
  have ih: "unpackTokens ((pre @ packToken t) @ concat (map packToken ts) @ post)
              (length (pre @ packToken t) + length (concat (map packToken ts)))
              (length (pre @ packToken t)) (acc @ [t])
            = Inr ((acc @ [t]) @ ts,
                   length (pre @ packToken t) + length (concat (map packToken ts)))"
    by (rule Cons.IH)
  show ?case
    using ih d packToken_nonempty [of t]
    by (subst unpackTokens.simps) (simp add: add.assoc)
qed

lemma sint_of_nat_64: "n < 2 ^ 63 \<Longrightarrow> sint (of_nat n :: 64 word) = int n"
proof -
  assume "n < 2 ^ 63"
  then have "int n < 2 ^ 63" by simp
  then have "signed_take_bit 63 (int n) = int n"
    by (simp add: signed_take_bit_int_eq_self)
  moreover have "(of_nat n :: 64 word) = word_of_int (int n)"
    by simp
  ultimately show ?thesis
    by (simp only: sint_sbintrunc') simp
qed

section \<open>Sizes and length prefixes\<close>

lemma decodeVarint_tag:
  "b < 0x80 \<Longrightarrow>
   decodeVarint (pre @ b # post) (length pre) 0 (0 :: 64 word)
   = Inr (ucast (b AND 0x7F), length pre + 1)"
  by (subst decodeVarint.simps) simp

lemma slice_mid: "slice (pre @ xs @ post) (length pre) (length pre + length xs) = xs"
  by (simp add: slice_def)

lemma decodeLength_encoded:
  assumes "length (pre @ encodeVarintRing (of_nat n) @ body @ post) < 2 ^ 63"
    and "length body = n"
  shows "decodeLength (pre @ encodeVarintRing (of_nat n) @ body @ post) (length pre)
         = Inr (length pre + length (encodeVarintRing (of_nat n :: 64 word)),
                length pre + length (encodeVarintRing (of_nat n :: 64 word)) + n)"
proof -
  from assms have n: "n < 2 ^ 63" by simp
  then have s: "sint (of_nat n :: 64 word) = int n"
    by (rule sint_of_nat_64)
  from n have "n < 2 ^ 64"
    by (rule less_trans) simp
  then have u: "unat (of_nat n :: 64 word) = n"
    by (simp add: unat_of_nat)
  show ?thesis
    using assms
    by (simp add: decodeLength_def decodeVarint_encodeVarintRing s u)
qed

lemma packed_length:
  "length (concat (map packToken ts)) = sum_list (map (\<lambda>e. sovRing (ucast e)) ts)"
  by (induction ts) (simp_all add: packToken_eq encodeVarintRing_length)

lemma IngesterDesc_MarshalTo_length:
  "length (IngesterDesc_MarshalTo m) = IngesterDesc_Size m"
  by (simp add: IngesterDesc_MarshalTo_def IngesterDesc_Size_def encodeVarintRing_length
      packed_length)

lemma Desc_entry_MarshalTo_length:
  "length (Desc_entry_MarshalTo k v) = Desc_entry_Size k v"
  by (simp add: Desc_entry_MarshalTo_def Desc_entry_Size_def Let_def encodeVarintRing_length
      IngesterDesc_MarshalTo_length)

lemma Desc_MarshalTo_length: "length (Desc_MarshalTo m) = Desc_Size m"
proof -
  have "length (concat (map (\<lambda>(k, v). Desc_entry_MarshalTo k v) xs))
        = sum_list (map (\<lambda>(k, v). Desc_entry_Size k v) xs)" for xs
    by (induction xs) (auto simp: Desc_entry_MarshalTo_length)
  then show ?thesis
    by (simp add: Desc_MarshalTo_def Desc_Size_def)
qed

section \<open>Decoding what MarshalTo wrote\<close>

lemma field_Addr:
  assumes len: "length (pre @ 0xa # encodeVarintRing (of_nat (length a)) @ a @ post) < 2 ^ 63"
  shows "IngesterDesc_Unmarshal_field
           (pre @ 0xa # encodeVarintRing (of_nat (length a)) @ a @ post) (length pre) m
         = Inr (m\<lparr>Addr := a\<rparr>,
                length pre + length (0xa # encodeVarintRing (of_nat (length a) :: 64 word) @ a))"
proof -
  let ?e = "encodeVarintRing (of_nat (length a) :: 64 word)"
  let ?d = "pre @ 0xa # ?e @ a @ post"
  have tag: "decodeVarint ?d (length pre) 0 (0 :: 64 word) = Inr (0xa, length pre + 1)"
    using decodeVarint_tag [of "0xa" pre "?e @ a @ post"] by simp
  have "decodeLength ((pre @ [0xa]) @ ?e @ a @ post) (length (pre @ [0xa]))
        = Inr (length (pre @ [0xa]) + length ?e, length (pre @ [0xa]) + length ?e + length a)"
    using len by (intro decodeLength_encoded) simp_all
  then have dl: "decodeLength ?d (length pre + 1)
        = Inr (length pre + 1 + length ?e, length pre + 1 + length ?e + length a)"
    by simp
  have "slice ((pre @ 0xa # ?e) @ a @ post) (length (pre @ 0xa # ?e))
          (length (pre @ 0xa # ?e) + length a) = a"
    by (rule slice_mid)
  then have sl: "slice ?d (length pre + 1 + length ?e) (length pre + 1 + length ?e + length a) = a"
    by (simp add: add.assoc)
  show ?thesis
    using tag dl sl by (simp add: IngesterDesc_Unmarshal_field_def add.assoc)
qed

lemma field_Timestamp:
  "IngesterDesc_Unmarshal_field (pre @ 0x10 # encodeVarintRing ts @ post) (length pre) m
   = Inr (m\<lparr>Timestamp := ts\<rparr>, length pre + length (0x10 # encodeVarintRing ts))"
proof -
  let ?d = "pre @ 0x10 # encodeVarintRing ts @ post"
  have tag: "decodeVarint ?d (length pre) 0 (0 :: 64 word) = Inr (0x10, length pre + 1)"
    using decodeVarint_tag [of "0x10" pre "encodeVarintRing ts @ post"] by simp
  have "decodeVarint ((pre @ [0x10]) @ encodeVarintRing ts @ post) (length (pre @ [0x10])) 0
          (0 :: 64 word) = Inr (ts, length (pre @ [0x10]) + length (encodeVarintRing ts))"
    by (rule decodeVarint_encodeVarintRing)
  then have v: "decodeVarint ?d (length pre + 1) 0 (0 :: 64 word)
                = Inr (ts, length pre + 1 + length (encodeVarintRing ts))"
    by simp
  show ?thesis
    using tag v by (simp add: IngesterDesc_Unmarshal_field_def)
qed

lemma field_State:
  "IngesterDesc_Unmarshal_field (pre @ 0x18 # encodeVarintRing (scast st) @ post) (length pre) m
   = Inr (m\<lparr>State := st\<rparr>, length pre + length (0x18 # encodeVarintRing (scast st)))"
proof -
  let ?e = "encodeVarintRing (scast st)"
  let ?d = "pre @ 0x18 # ?e @ post"
  have tag: "decodeVarint ?d (length pre) 0 (0 :: 64 word) = Inr (0x18, length pre + 1)"
    using decodeVarint_tag [of "0x18" pre "?e @ post"] by simp
  have "decodeVarint ((pre @ [0x18]) @ ?e @ post) (length (pre @ [0x18])) 0
          (0 :: 32 word) = Inr (ucast (scast st :: 64 word), length (pre @ [0x18]) + length ?e)"
    by (rule decodeVarint32_encodeVarintRing)
  then have v: "decodeVarint ?d (length pre + 1) 0 (0 :: 32 word)
                = Inr (st, length pre + 1 + length ?e)"
    by (simp add: ucast_scast_32)
  show ?thesis
    using tag v by (simp add: IngesterDesc_Unmarshal_field_def)
qed

lemma field_Tokens:
  assumes len: "length (pre @ 0x32 # encodeVarintRing (of_nat (length (concat (map packToken ts))))
                  @ concat (map packToken ts) @ post) < 2 ^ 63"
  shows "IngesterDesc_Unmarshal_field
           (pre @ 0x32 # encodeVarintRing (of_nat (length (concat (map packToken ts))))
              @ concat (map packToken ts) @ post) (length pre) m
         = Inr (m\<lparr>Tokens := Tokens m @ ts\<rparr>,
                length pre + length (0x32 # encodeVarintRing
                   (of_nat (length (concat (map packToken ts))) :: 64 word)
                   @ concat (map packToken ts)))"
proof -
  let ?p = "concat (map packToken ts)"
  let ?e = "encodeVarintRing (of_nat (length ?p) :: 64 word)"
  let ?d = "pre @ 0x32 # ?e @ ?p @ post"
  have tag: "decodeVarint ?d (length pre) 0 (0 :: 64 word) = Inr (0x32, length pre + 1)"
    using decodeVarint_tag [of "0x32" pre "?e @ ?p @ post"] by simp
  have "decodeLength ((pre @ [0x32]) @ ?e @ ?p @ post) (length (pre @ [0x32]))
        = Inr (length (pre @ [0x32]) + length ?e, length (pre @ [0x32]) + length ?e + length ?p)"
    using len by (intro decodeLength_encoded) simp_all
  then have dl: "decodeLength ?d (length pre + 1)
        = Inr (length pre + 1 + length ?e, length pre + 1 + length ?e + length ?p)"
    by simp
  have "unpackTokens ((pre @ 0x32 # ?e) @ ?p @ post) (length (pre @ 0x32 # ?e) + length ?p)
          (length (pre @ 0x32 # ?e)) (Tokens m)
        = Inr (Tokens m @ ts, length (pre @ 0x32 # ?e) + length ?p)"
    by (rule unpackTokens_packed)
  then have up: "unpackTokens ?d (length pre + 1 + length ?e + length ?p)
          (length pre + 1 + length ?e) (Tokens m)
        = Inr (Tokens m @ ts, length pre + 1 + length ?e + length ?p)"
    by (simp add: add.assoc)
  show ?thesis
    using tag dl up by (simp add: IngesterDesc_Unmarshal_field_def add.assoc)
qed

lemma IngesterDesc_loop_step:
  "IngesterDesc_Unmarshal_field dAtA i m = Inr (m', j) \<Longrightarrow> i < length dAtA \<Longrightarrow>
   IngesterDesc_Unmarshal_loop dAtA i m = IngesterDesc_Unmarshal_loop dAtA j m'"
  by (subst IngesterDesc_Unmarshal_loop.simps) simp

lemma IngesterDesc_loop_end:
  "IngesterDesc_Unmarshal_loop dAtA (length dAtA) m = Inr m"
  by (subst IngesterDesc_Unmarshal_loop.simps) simp

lemma IngesterDesc_roundtrip:
  assumes size: "IngesterDesc_Size m < 2 ^ 63"
  shows "IngesterDesc_Unmarshal (IngesterDesc_MarshalTo m) IngesterDesc_zero = Inr m"
proof -
  define c1 where "c1 = (if length (Addr m) > 0
      then 0xa # encodeVarintRing (of_nat (length (Addr m))) @ Addr m else [])"
  define c2 where "c2 = (if Timestamp m \<noteq> 0 then 0x10 # encodeVarintRing (Timestamp m) else [])"
  define c3 where "c3 = (if State m \<noteq> 0 then 0x18 # encodeVarintRing (scast (State m)) else [])"
  define c4 where "c4 = (if length (Tokens m) > 0
        then 0x32 # encodeVarintRing (of_nat (length (concat (map packToken (Tokens m)))))
             @ concat (map packToken (Tokens m))
        else [])"
  define d where "d = c1 @ c2 @ c3 @ c4"
  define m1 where "m1 = IngesterDesc_zero\<lparr>Addr := Addr m\<rparr>"
  define m2 where "m2 = m1\<lparr>Timestamp := Timestamp m\<rparr>"
  define m3 where "m3 = m2\<lparr>State := State m\<rparr>"
  have d_eq: "IngesterDesc_MarshalTo m = d"
    by (simp add: IngesterDesc_MarshalTo_def d_def c1_def c2_def c3_def c4_def)
  have len: "length d < 2 ^ 63"
    using size IngesterDesc_MarshalTo_length [of m] d_eq by simp
  have s1: "IngesterDesc_Unmarshal_loop d 0 IngesterDesc_zero
            = IngesterDesc_Unmarshal_loop d (length c1) m1"
  proof (cases "length (Addr m) > 0")
    case False
    then show ?thesis
      by (simp add: c1_def m1_def IngesterDesc_zero_def)
  next
    case True
    then have c: "c1 = 0xa # encodeVarintRing (of_nat (length (Addr m))) @ Addr m"
      by (simp add: c1_def)
    have "IngesterDesc_Unmarshal_field
            ([] @ 0xa # encodeVarintRing (of_nat (length (Addr m))) @ Addr m @ (c2 @ c3 @ c4))
            (length ([] :: byte list)) IngesterDesc_zero
          = Inr (IngesterDesc_zero\<lparr>Addr := Addr m\<rparr>,
                 length ([] :: byte list) + length (0xa # encodeVarintRing (of_nat (length (Addr m)) :: 64 word) @ Addr m))"
      using len by (intro field_Addr) (simp add: d_def c)
    then have "IngesterDesc_Unmarshal_field d 0 IngesterDesc_zero = Inr (m1, length c1)"
      by (simp add: d_def c m1_def)
    then show ?thesis
      by (rule IngesterDesc_loop_step) (simp add: d_def c)
  qed
  have s2: "IngesterDesc_Unmarshal_loop d (length c1) m1
            = IngesterDesc_Unmarshal_loop d (length (c1 @ c2)) m2"
  proof (cases "Timestamp m \<noteq> 0")
    case False
    then show ?thesis
      by (simp add: c2_def m2_def m1_def IngesterDesc_zero_def)
  next
    case True
    then have c: "c2 = 0x10 # encodeVarintRing (Timestamp m)"
      by (simp add: c2_def)
    have "IngesterDesc_Unmarshal_field (c1 @ 0x10 # encodeVarintRing (Timestamp m) @ (c3 @ c4))
            (length c1) m1
          = Inr (m1\<lparr>Timestamp := Timestamp m\<rparr>,
                 length c1 + length (0x10 # encodeVarintRing (Timestamp m)))"
      by (rule field_Timestamp)
    then have "IngesterDesc_Unmarshal_field d (length c1) m1 = Inr (m2, length (c1 @ c2))"
      by (simp add: d_def c m2_def)
    then show ?thesis
      by (rule IngesterDesc_loop_step) (simp add: d_def c)
  qed
  have s3: "IngesterDesc_Unmarshal_loop d (length (c1 @ c2)) m2
            = IngesterDesc_Unmarshal_loop d (length (c1 @ c2 @ c3)) m3"
  proof (cases "State m \<noteq> 0")
    case False
    then show ?thesis
      by (simp add: c3_def m3_def m2_def m1_def IngesterDesc_zero_def)
  next
    case True
    then have c: "c3 = 0x18 # encodeVarintRing (scast (State m))"
      by (simp add: c3_def)
    have "IngesterDesc_Unmarshal_field
            ((c1 @ c2) @ 0x18 # encodeVarintRing (scast (State m)) @ c4) (length (c1 @ c2)) m2
          = Inr (m2\<lparr>State := State m\<rparr>,
                 length (c1 @ c2) + length (0x18 # encodeVarintRing (scast (State m))))"
      by (rule field_State)
    then have "IngesterDesc_Unmarshal_field d (length (c1 @ c2)) m2
               = Inr (m3, length (c1 @ c2 @ c3))"
      by (simp add: d_def c m3_def)
    then show ?thesis
      by (rule IngesterDesc_loop_step) (simp add: d_def c)
  qed
  have m3_tokens: "Tokens m3 = []"
    by (simp add: m3_def m2_def m1_def IngesterDesc_zero_def)
  have s4: "IngesterDesc_Unmarshal_loop d (length (c1 @ c2 @ c3)) m3
            = IngesterDesc_Unmarshal_loop d (length d) (m3\<lparr>Tokens := Tokens m\<rparr>)"
  proof (cases "length (Tokens m) > 0")
    case False
    then show ?thesis
      by (simp add: c4_def d_def m3_def m2_def m1_def IngesterDesc_zero_def)
  next
    case True
    let ?p = "concat (map packToken (Tokens m))"
    from True have c: "c4 = 0x32 # encodeVarintRing (of_nat (length ?p)) @ ?p"
      by (simp add: c4_def)
    have "IngesterDesc_Unmarshal_field
            ((c1 @ c2 @ c3) @ 0x32 # encodeVarintRing (of_nat (length ?p)) @ ?p @ [])
            (length (c1 @ c2 @ c3)) m3
          = Inr (m3\<lparr>Tokens := Tokens m3 @ Tokens m\<rparr>,
                 length (c1 @ c2 @ c3)
                 + length (0x32 # encodeVarintRing (of_nat (length ?p) :: 64 word) @ ?p))"
      using len by (intro field_Tokens) (simp add: d_def c)
    then have "IngesterDesc_Unmarshal_field d (length (c1 @ c2 @ c3)) m3
               = Inr (m3\<lparr>Tokens := Tokens m\<rparr>, length d)"
      by (simp add: d_def c m3_tokens)
    then show ?thesis
      by (rule IngesterDesc_loop_step) (simp add: d_def c)
  qed
  have fin: "m3\<lparr>Tokens := Tokens m\<rparr> = m"
    by (simp add: m3_def m2_def m1_def IngesterDesc_zero_def)
  show ?thesis
    unfolding IngesterDesc_Unmarshal_def d_eq
    by (simp only: s1 s2 s3 s4 fin IngesterDesc_loop_end)
qed

text \<open>
  The same with any bytes after the message: the loop reaches the end of what
  \<open>MarshalTo\<close> wrote with the descriptor read back.
\<close>

lemma IngesterDesc_loop_MarshalTo:
  assumes size: "length (IngesterDesc_MarshalTo m @ post) < 2 ^ 63"
  shows "IngesterDesc_Unmarshal_loop (IngesterDesc_MarshalTo m @ post) 0 IngesterDesc_zero
         = IngesterDesc_Unmarshal_loop (IngesterDesc_MarshalTo m @ post)
             (length (IngesterDesc_MarshalTo m)) m"
proof -
  define c1 where "c1 = (if length (Addr m) > 0
      then 0xa # encodeVarintRing (of_nat (length (Addr m))) @ Addr m else [])"
  define c2 where "c2 = (if Timestamp m \<noteq> 0 then 0x10 # encodeVarintRing (Timestamp m) else [])"
  define c3 where "c3 = (if State m \<noteq> 0 then 0x18 # encodeVarintRing (scast (State m)) else [])"
  define c4 where "c4 = (if length (Tokens m) > 0
        then 0x32 # encodeVarintRing (of_nat (length (concat (map packToken (Tokens m)))))
             @ concat (map packToken (Tokens m))
        else [])"
  define d where "d = c1 @ c2 @ c3 @ c4 @ post"
  define m1 where "m1 = IngesterDesc_zero\<lparr>Addr := Addr m\<rparr>"
  define m2 where "m2 = m1\<lparr>Timestamp := Timestamp m\<rparr>"
  define m3 where "m3 = m2\<lparr>State := State m\<rparr>"
  have m_eq: "IngesterDesc_MarshalTo m = c1 @ c2 @ c3 @ c4"
    by (simp add: IngesterDesc_MarshalTo_def c1_def c2_def c3_def c4_def)
  have d_eq: "IngesterDesc_MarshalTo m @ post = d"
    by (simp add: m_eq d_def)
  have len: "length d < 2 ^ 63"
    using size d_eq by simp
  have s1: "IngesterDesc_Unmarshal_loop d 0 IngesterDesc_zero
            = IngesterDesc_Unmarshal_loop d (length c1) m1"
  proof (cases "length (Addr m) > 0")
    case False
    then show ?thesis
      by (simp add: c1_def m1_def IngesterDesc_zero_def)
  next
    case True
    then have c: "c1 = 0xa # encodeVarintRing (of_nat (length (Addr m))) @ Addr m"
      by (simp add: c1_def)
    have "IngesterDesc_Unmarshal_field
            ([] @ 0xa # encodeVarintRing (of_nat (length (Addr m))) @ Addr m @ (c2 @ c3 @ c4 @ post))
            (length ([] :: byte list)) IngesterDesc_zero
          = Inr (IngesterDesc_zero\<lparr>Addr := Addr m\<rparr>,
                 length ([] :: byte list) + length (0xa # encodeVarintRing (of_nat (length (Addr m)) :: 64 word) @ Addr m))"
      using len by (intro field_Addr) (simp add: d_def c)
    then have "IngesterDesc_Unmarshal_field d 0 IngesterDesc_zero = Inr (m1, length c1)"
      by (simp add: d_def c m1_def)
    then show ?thesis
      by (rule IngesterDesc_loop_step) (simp add: d_def c)
  qed
  have s2: "IngesterDesc_Unmarshal_loop d (length c1) m1
            = IngesterDesc_Unmarshal_loop d (length (c1 @ c2)) m2"
  proof (cases "Timestamp m \<noteq> 0")
    case False
    then show ?thesis
      by (simp add: c2_def m2_def m1_def IngesterDesc_zero_def)
  next
    case True
    then have c: "c2 = 0x10 # encodeVarintRing (Timestamp m)"
      by (simp add: c2_def)
    have "IngesterDesc_Unmarshal_field (c1 @ 0x10 # encodeVarintRing (Timestamp m) @ (c3 @ c4 @ post))
            (length c1) m1
          = Inr (m1\<lparr>Timestamp := Timestamp m\<rparr>,
                 length c1 + length (0x10 # encodeVarintRing (Timestamp m)))"
      by (rule field_Timestamp)
    then have "IngesterDesc_Unmarshal_field d (length c1) m1 = Inr (m2, length (c1 @ c2))"
      by (simp add: d_def c m2_def)
    then show ?thesis
      by (rule IngesterDesc_loop_step) (simp add: d_def c)
  qed
  have s3: "IngesterDesc_Unmarshal_loop d (length (c1 @ c2)) m2
            = IngesterDesc_Unmarshal_loop d (length (c1 @ c2 @ c3)) m3"
  proof (cases "State m \<noteq> 0")
    case False
    then show ?thesis
      by (simp add: c3_def m3_def m2_def m1_def IngesterDesc_zero_def)
  next
    case True
    then have c: "c3 = 0x18 # encodeVarintRing (scast (State m))"
      by (simp add: c3_def)
    have "IngesterDesc_Unmarshal_field
            ((c1 @ c2) @ 0x18 # encodeVarintRing (scast (State m)) @ (c4 @ post)) (length (c1 @ c2)) m2
          = Inr (m2\<lparr>State := State m\<rparr>,
                 length (c1 @ c2) + length (0x18 # encodeVarintRing (scast (State m))))"
      by (rule field_State)
    then have "IngesterDesc_Unmarshal_field d (length (c1 @ c2)) m2
               = Inr (m3, length (c1 @ c2 @ c3))"
      by (simp add: d_def c m3_def)
    then show ?thesis
      by (rule IngesterDesc_loop_step) (simp add: d_def c)
  qed
  have m3_tokens: "Tokens m3 = []"
    by (simp add: m3_def m2_def m1_def IngesterDesc_zero_def)
  have s4: "IngesterDesc_Unmarshal_loop d (length (c1 @ c2 @ c3)) m3
            = IngesterDesc_Unmarshal_loop d (length (c1 @ c2 @ c3 @ c4))
                (m3\<lparr>Tokens := Tokens m\<rparr>)"
  proof (cases "length (Tokens m) > 0")
    case False
    then show ?thesis
      by (simp add: c4_def d_def m3_def m2_def m1_def IngesterDesc_zero_def)
  next
    case True
    let ?p = "concat (map packToken (Tokens m))"
    from True have c: "c4 = 0x32 # encodeVarintRing (of_nat (length ?p)) @ ?p"
      by (simp add: c4_def)
    have "IngesterDesc_Unmarshal_field
            ((c1 @ c2 @ c3) @ 0x32 # encodeVarintRing (of_nat (length ?p)) @ ?p @ post)
            (length (c1 @ c2 @ c3)) m3
          = Inr (m3\<lparr>Tokens := Tokens m3 @ Tokens m\<rparr>,
                 length (c1 @ c2 @ c3)
                 + length (0x32 # encodeVarintRing (of_nat (length ?p) :: 64 word) @ ?p))"
      using len by (intro field_Tokens) (simp add: d_def c)
    then have "IngesterDesc_Unmarshal_field d (length (c1 @ c2 @ c3)) m3
               = Inr (m3\<lparr>Tokens := Tokens m\<rparr>, length (c1 @ c2 @ c3 @ c4))"
      by (simp add: d_def c m3_tokens)
    then show ?thesis
      by (rule IngesterDesc_loop_step) (simp add: d_def c)
  qed
  have fin: "m3\<lparr>Tokens := Tokens m\<rparr> = m"
    by (simp add: m3_def m2_def m1_def IngesterDesc_zero_def)
  have "IngesterDesc_Unmarshal_loop d 0 IngesterDesc_zero
        = IngesterDesc_Unmarshal_loop d (length (c1 @ c2 @ c3 @ c4)) m"
    by (simp only: s1 s2 s3 s4 fin)
  then show ?thesis
    unfolding d_eq unfolding m_eq .
qed

lemma entry_field_key:
  assumes len: "length (pre @ 0xa # encodeVarintRing (of_nat (length k)) @ k @ post) < 2 ^ 63"
  shows "Desc_Unmarshal_entry_field
           (pre @ 0xa # encodeVarintRing (of_nat (length k)) @ k @ post) P (length pre) kv
         = Inr ((k, snd kv),
                length pre + length (0xa # encodeVarintRing (of_nat (length k) :: 64 word) @ k))"
proof -
  let ?e = "encodeVarintRing (of_nat (length k) :: 64 word)"
  let ?d = "pre @ 0xa # ?e @ k @ post"
  have tag: "decodeVarint ?d (length pre) 0 (0 :: 64 word) = Inr (0xa, length pre + 1)"
    using decodeVarint_tag [of "0xa" pre "?e @ k @ post"] by simp
  have "decodeLength ((pre @ [0xa]) @ ?e @ k @ post) (length (pre @ [0xa]))
        = Inr (length (pre @ [0xa]) + length ?e, length (pre @ [0xa]) + length ?e + length k)"
    using len by (intro decodeLength_encoded) simp_all
  then have dl: "decodeLength ?d (length pre + 1)
        = Inr (length pre + 1 + length ?e, length pre + 1 + length ?e + length k)"
    by simp
  have "slice ((pre @ 0xa # ?e) @ k @ post) (length (pre @ 0xa # ?e))
          (length (pre @ 0xa # ?e) + length k) = k"
    by (rule slice_mid)
  then have sl: "slice ?d (length pre + 1 + length ?e) (length pre + 1 + length ?e + length k) = k"
    by (simp add: add.assoc)
  show ?thesis
    using tag dl sl by (simp add: Desc_Unmarshal_entry_field_def add.assoc)
qed

lemma entry_field_value:
  assumes len: "length (pre @ 0x12 # encodeVarintRing (of_nat (IngesterDesc_Size v))
                  @ IngesterDesc_MarshalTo v @ post) < 2 ^ 63"
  shows "Desc_Unmarshal_entry_field
           (pre @ 0x12 # encodeVarintRing (of_nat (IngesterDesc_Size v))
              @ IngesterDesc_MarshalTo v @ post) P (length pre) kv
         = Inr ((fst kv, v),
                length pre + length (0x12 # encodeVarintRing (of_nat (IngesterDesc_Size v) :: 64 word)
                   @ IngesterDesc_MarshalTo v))"
proof -
  let ?e = "encodeVarintRing (of_nat (IngesterDesc_Size v) :: 64 word)"
  let ?b = "IngesterDesc_MarshalTo v"
  let ?d = "pre @ 0x12 # ?e @ ?b @ post"
  have lb: "length ?b = IngesterDesc_Size v"
    by (rule IngesterDesc_MarshalTo_length)
  have tag: "decodeVarint ?d (length pre) 0 (0 :: 64 word) = Inr (0x12, length pre + 1)"
    using decodeVarint_tag [of "0x12" pre "?e @ ?b @ post"] by simp
  have "decodeLength ((pre @ [0x12]) @ ?e @ ?b @ post) (length (pre @ [0x12]))
        = Inr (length (pre @ [0x12]) + length ?e,
               length (pre @ [0x12]) + length ?e + IngesterDesc_Size v)"
    using len lb by (intro decodeLength_encoded) simp_all
  then have dl: "decodeLength ?d (length pre + 1)
        = Inr (length pre + 1 + length ?e, length pre + 1 + length ?e + length ?b)"
    by (simp add: lb)
  have "slice ((pre @ 0x12 # ?e) @ ?b @ post) (length (pre @ 0x12 # ?e))
          (length (pre @ 0x12 # ?e) + length ?b) = ?b"
    by (rule slice_mid)
  then have sl: "slice ?d (length pre + 1 + length ?e) (length pre + 1 + length ?e + length ?b) = ?b"
    by (simp add: add.assoc)
  have "IngesterDesc_Size v < 2 ^ 63"
    using len lb by simp
  then have rt: "IngesterDesc_Unmarshal ?b IngesterDesc_zero = Inr v"
    by (rule IngesterDesc_roundtrip)
  show ?thesis
    using tag dl sl rt by (simp add: Desc_Unmarshal_entry_field_def add.assoc)
qed

lemma entry_loop_step:
  "Desc_Unmarshal_entry_field dAtA P i kv = Inr (kv', j) \<Longrightarrow> i < P \<Longrightarrow>
   Desc_Unmarshal_entry_loop dAtA P i kv = Desc_Unmarshal_entry_loop dAtA P j kv'"
  by (subst Desc_Unmarshal_entry_loop.simps) simp

lemma entry_loop_end: "Desc_Unmarshal_entry_loop dAtA P P kv = Inr kv"
  by (subst Desc_Unmarshal_entry_loop.simps) simp

lemma entry_loop_encoded:
  assumes len: "length (pre @ (0xa # encodeVarintRing (of_nat (length k)) @ k
                  @ 0x12 # encodeVarintRing (of_nat (IngesterDesc_Size v))
                  @ IngesterDesc_MarshalTo v) @ post) < 2 ^ 63"
  shows "Desc_Unmarshal_entry_loop
           (pre @ (0xa # encodeVarintRing (of_nat (length k)) @ k
              @ 0x12 # encodeVarintRing (of_nat (IngesterDesc_Size v))
              @ IngesterDesc_MarshalTo v) @ post)
           (length pre + length (0xa # encodeVarintRing (of_nat (length k) :: 64 word) @ k
              @ 0x12 # encodeVarintRing (of_nat (IngesterDesc_Size v) :: 64 word)
              @ IngesterDesc_MarshalTo v))
           (length pre) kv
         = Inr (k, v)"
proof -
  let ?ck = "0xa # encodeVarintRing (of_nat (length k) :: 64 word) @ k"
  let ?cv = "0x12 # encodeVarintRing (of_nat (IngesterDesc_Size v) :: 64 word)
               @ IngesterDesc_MarshalTo v"
  let ?d = "pre @ (?ck @ ?cv) @ post"
  let ?P = "length pre + length (?ck @ ?cv)"
  have "Desc_Unmarshal_entry_field
          (pre @ 0xa # encodeVarintRing (of_nat (length k)) @ k @ (?cv @ post)) ?P (length pre) kv
        = Inr ((k, snd kv), length pre + length ?ck)"
    using len by (intro entry_field_key) simp
  then have f1: "Desc_Unmarshal_entry_field ?d ?P (length pre) kv
        = Inr ((k, snd kv), length pre + length ?ck)"
    by simp
  have "Desc_Unmarshal_entry_field
          ((pre @ ?ck) @ 0x12 # encodeVarintRing (of_nat (IngesterDesc_Size v))
              @ IngesterDesc_MarshalTo v @ post) ?P (length (pre @ ?ck)) (k, snd kv)
        = Inr ((fst (k, snd kv), v), length (pre @ ?ck) + length ?cv)"
    using len by (intro entry_field_value) simp
  then have f2: "Desc_Unmarshal_entry_field ?d ?P (length pre + length ?ck) (k, snd kv)
        = Inr ((k, v), ?P)"
    by (simp add: add.assoc)
  have "Desc_Unmarshal_entry_loop ?d ?P (length pre) kv
        = Desc_Unmarshal_entry_loop ?d ?P (length pre + length ?ck) (k, snd kv)"
    using f1 by (rule entry_loop_step) simp
  also have "\<dots> = Desc_Unmarshal_entry_loop ?d ?P ?P (k, v)"
    using f2 by (rule entry_loop_step) simp
  also have "\<dots> = Inr (k, v)"
    by (rule entry_loop_end)
  finally show ?thesis
    by simp
qed

lemma Desc_field_entry:
  assumes len: "length (pre @ Desc_entry_MarshalTo k v @ post) < 2 ^ 63"
  shows "Desc_Unmarshal_field (pre @ Desc_entry_MarshalTo k v @ post) (length pre) M
         = Inr (M\<lparr>Ingesters := map_assign (Ingesters M) k v\<rparr>,
                length pre + length (Desc_entry_MarshalTo k v))"
proof -
  define inner where "inner = 0xa # encodeVarintRing (of_nat (length k)) @ k
      @ 0x12 # encodeVarintRing (of_nat (IngesterDesc_Size v)) @ IngesterDesc_MarshalTo v"
  let ?e = "encodeVarintRing (of_nat (length inner) :: 64 word)"
  let ?d = "pre @ 0xa # ?e @ inner @ post"
  have inner_len: "length inner
      = 1 + length k + sovRing (of_nat (length k))
        + (IngesterDesc_Size v + 1 + sovRing (of_nat (IngesterDesc_Size v)))"
    by (simp add: inner_def encodeVarintRing_length IngesterDesc_MarshalTo_length)
  have E: "Desc_entry_MarshalTo k v = 0xa # ?e @ inner"
    unfolding Desc_entry_MarshalTo_def Let_def inner_len [symmetric]
    by (simp add: inner_def)
  from len have len': "length ?d < 2 ^ 63"
    by (simp add: E)
  have tag: "decodeVarint ?d (length pre) 0 (0 :: 64 word) = Inr (0xa, length pre + 1)"
    using decodeVarint_tag [of "0xa" pre "?e @ inner @ post"] by simp
  have "decodeLength ((pre @ [0xa]) @ ?e @ inner @ post) (length (pre @ [0xa]))
        = Inr (length (pre @ [0xa]) + length ?e, length (pre @ [0xa]) + length ?e + length inner)"
    using len' by (intro decodeLength_encoded) simp_all
  then have dl: "decodeLength ?d (length pre + 1)
        = Inr (length pre + 1 + length ?e, length pre + 1 + length ?e + length inner)"
    by simp
  have "Desc_Unmarshal_entry_loop
           ((pre @ 0xa # ?e) @ (0xa # encodeVarintRing (of_nat (length k)) @ k
              @ 0x12 # encodeVarintRing (of_nat (IngesterDesc_Size v))
              @ IngesterDesc_MarshalTo v) @ post)
           (length (pre @ 0xa # ?e)
            + length (0xa # encodeVarintRing (of_nat (length k) :: 64 word) @ k
              @ 0x12 # encodeVarintRing (of_nat (IngesterDesc_Size v) :: 64 word)
              @ IngesterDesc_MarshalTo v))
           (length (pre @ 0xa # ?e)) ([], IngesterDesc_zero)
         = Inr (k, v)"
    using len' by (intro entry_loop_encoded) (simp add: inner_def)
  then have el: "Desc_Unmarshal_entry_loop ?d (length pre + 1 + length ?e + length inner)
           (length pre + 1 + length ?e) ([], IngesterDesc_zero) = Inr (k, v)"
    by (simp add: inner_def add.assoc)
  show ?thesis
    unfolding E
    using tag dl el by (simp add: Desc_Unmarshal_field_def add.assoc)
qed

lemma Desc_loop_step:
  "Desc_Unmarshal_field dAtA i m = Inr (m', j) \<Longrightarrow> i < length dAtA \<Longrightarrow>
   Desc_Unmarshal_loop dAtA i m = Desc_Unmarshal_loop dAtA j m'"
  by (subst Desc_Unmarshal_loop.simps) simp

lemma Desc_loop_end: "Desc_Unmarshal_loop dAtA (length dAtA) m = Inr m"
  by (subst Desc_Unmarshal_loop.simps) simp

lemma Desc_entry_MarshalTo_nonempty: "0 < length (Desc_entry_MarshalTo k v)"
  by (simp add: Desc_entry_MarshalTo_def Let_def)

lemma Desc_loop_encoded:
  assumes "length (pre @ concat (map (\<lambda>(k, v). Desc_entry_MarshalTo k v) xs)) < 2 ^ 63"
  shows "Desc_Unmarshal_loop (pre @ concat (map (\<lambda>(k, v). Desc_entry_MarshalTo k v) xs))
           (length pre) M
         = Inr (M\<lparr>Ingesters := fold (\<lambda>(k, v) acc. map_assign acc k v) xs (Ingesters M)\<rparr>)"
  using assms
proof (induction xs arbitrary: pre M)
  case Nil
  show ?case
    using Desc_loop_end [of pre M] by simp
next
  case (Cons x xs)
  obtain k v where x: "x = (k, v)" by (cases x)
  let ?rest = "concat (map (\<lambda>(k, v). Desc_entry_MarshalTo k v) xs)"
  let ?d = "pre @ Desc_entry_MarshalTo k v @ ?rest"
  let ?M = "M\<lparr>Ingesters := map_assign (Ingesters M) k v\<rparr>"
  from Cons.prems have len: "length ?d < 2 ^ 63"
    by (simp add: x)
  have f: "Desc_Unmarshal_field ?d (length pre) M
           = Inr (?M, length pre + length (Desc_entry_MarshalTo k v))"
    using len by (rule Desc_field_entry)
  have "Desc_Unmarshal_loop ?d (length pre) M
        = Desc_Unmarshal_loop ?d (length pre + length (Desc_entry_MarshalTo k v)) ?M"
    using f Desc_entry_MarshalTo_nonempty [of k v] by (intro Desc_loop_step) simp_all
  also have "\<dots> = Desc_Unmarshal_loop ((pre @ Desc_entry_MarshalTo k v) @ ?rest)
                      (length (pre @ Desc_entry_MarshalTo k v)) ?M"
    by simp
  also have "\<dots> = Inr (?M\<lparr>Ingesters := fold (\<lambda>(k, v) acc. map_assign acc k v) xs (Ingesters ?M)\<rparr>)"
    using len by (intro Cons.IH) simp
  finally show ?case
    by (simp add: x)
qed

lemma map_assign_fresh: "k \<notin> fst ` set m \<Longrightarrow> map_assign m k v = m @ [(k, v)]"
  by (induction m) auto

lemma fold_map_assign_distinct:
  "distinct (map fst (acc @ xs)) \<Longrightarrow>
   fold (\<lambda>(k, v) acc. map_assign acc k v) xs acc = acc @ xs"
proof (induction xs arbitrary: acc)
  case Nil
  show ?case by simp
next
  case (Cons x xs)
  obtain k v where x: "x = (k, v)" by (cases x)
  from Cons.prems have fresh: "k \<notin> fst ` set acc"
    by (auto simp: x)
  from Cons.prems have "distinct (map fst ((acc @ [(k, v)]) @ xs))"
    by (simp add: x)
  then have "fold (\<lambda>(k, v) acc. map_assign acc k v) xs (acc @ [(k, v)]) = (acc @ [(k, v)]) @ xs"
    by (rule Cons.IH)
  then show ?case
    by (simp add: x map_assign_fresh [OF fresh])
qed

lemma IngesterDesc_Equal_refl: "IngesterDesc_Equal a a"
  by (simp add: IngesterDesc_Equal_def list_all_iff)

lemma Desc_Equal_refl: "Desc_Equal m m"
  by (simp add: Desc_Equal_def list_all_iff IngesterDesc_Equal_refl)

lemma Desc_Unmarshal_MarshalTo:
  assumes "distinct (map fst (Ingesters m))" and "Desc_Size m < 2 ^ 63"
  shows "Desc_Unmarshal (Desc_MarshalTo m) \<lparr>Ingesters = []\<rparr> = Inr m"
proof -
  have "length ([] @ concat (map (\<lambda>(k, v). Desc_entry_MarshalTo k v) (Ingesters m))) < 2 ^ 63"
    using assms(2) Desc_MarshalTo_length [of m] by (simp add: Desc_MarshalTo_def)
  then have "Desc_Unmarshal_loop
               ([] @ concat (map (\<lambda>(k, v). Desc_entry_MarshalTo k v) (Ingesters m)))
               (length ([] :: byte list)) \<lparr>Ingesters = []\<rparr>
             = Inr (\<lparr>Ingesters = []\<rparr>\<lparr>Ingesters :=
                 fold (\<lambda>(k, v) acc. map_assign acc k v) (Ingesters m)
                   (Ingesters \<lparr>Ingesters = []\<rparr>)\<rparr>)"
    by (rule Desc_loop_encoded)
  then show ?thesis
    using fold_map_assign_distinct [of "[]" "Ingesters m"] assms(1)
    by (simp add: Desc_Unmarshal_def Desc_MarshalTo_def)
qed


section \<open>The fields MarshalTo writes\<close>

lemma skipVarint_decodeVarint:
  "skipVarint dAtA iNdEx shift
   = (case decodeVarint dAtA iNdEx shift (acc :: 64 word) of
        Inl e \<Rightarrow> Inl e | Inr (v, j) \<Rightarrow> Inr j)"
proof (induction dAtA iNdEx shift acc rule: decodeVarint.induct)
  case (1 dAtA iNdEx shift v)
  show ?case
  proof (cases "shift \<ge> 64 \<or> iNdEx \<ge> length dAtA \<or> dAtA ! iNdEx < 0x80")
    case True
    then show ?thesis
      by (subst skipVarint.simps, subst decodeVarint.simps) auto
  next
    case False
    then have c: "\<not> 64 \<le> shift" "\<not> length dAtA \<le> iNdEx" "\<not> dAtA ! iNdEx < 0x80"
      by simp_all
    have "skipVarint dAtA iNdEx shift = skipVarint dAtA (iNdEx + 1) (shift + 7)"
      using c by (subst skipVarint.simps) simp
    also have "\<dots> = (case decodeVarint dAtA (iNdEx + 1) (shift + 7)
                            (v OR push_bit shift (ucast (dAtA ! iNdEx AND 0x7F))) of
                        Inl e \<Rightarrow> Inl e | Inr (v, j) \<Rightarrow> Inr j)"
      by (rule "1.IH" [OF c])
    also have "decodeVarint dAtA (iNdEx + 1) (shift + 7)
                 (v OR push_bit shift (ucast (dAtA ! iNdEx AND 0x7F)))
               = decodeVarint dAtA iNdEx shift v"
      using c by (subst (2) decodeVarint.simps) simp
    finally show ?thesis .
  qed
qed

lemma skipRing_varint_field:
  assumes "tag < 0x80" and "unat ((ucast (tag AND 0x7F) :: 64 word) AND 7) = 0"
  shows "skipRing (tag # encodeVarintRing w @ post) = Inr (1 + length (encodeVarintRing w))"
proof -
  let ?d = "tag # encodeVarintRing w @ post"
  have t: "decodeVarint ?d 0 0 (0 :: 64 word) = Inr (ucast (tag AND 0x7F), 1)"
    using decodeVarint_tag [OF assms(1), of "[]" "encodeVarintRing w @ post"] by simp
  have "decodeVarint ([tag] @ encodeVarintRing w @ post) (length [tag]) 0 (0 :: 64 word)
        = Inr (w, length [tag] + length (encodeVarintRing w))"
    by (rule decodeVarint_encodeVarintRing)
  then have "skipVarint ?d 1 0 = Inr (1 + length (encodeVarintRing w))"
    by (simp add: skipVarint_decodeVarint [where acc = 0])
  then show ?thesis
    using t assms(2) by (simp add: skipRing_def)
qed

lemma skipRing_bytes_field:
  assumes "tag < 0x80" and "unat ((ucast (tag AND 0x7F) :: 64 word) AND 7) = 2"
    and len: "length (tag # encodeVarintRing (of_nat n) @ body @ post) < 2 ^ 63"
    and body: "length body = n"
  shows "skipRing (tag # encodeVarintRing (of_nat n) @ body @ post)
         = Inr (1 + length (encodeVarintRing (of_nat n :: 64 word)) + n)"
proof -
  let ?e = "encodeVarintRing (of_nat n :: 64 word)"
  let ?d = "tag # ?e @ body @ post"
  have t: "decodeVarint ?d 0 0 (0 :: 64 word) = Inr (ucast (tag AND 0x7F), 1)"
    using decodeVarint_tag [OF assms(1), of "[]" "?e @ body @ post"] by simp
  have "decodeVarint ([tag] @ ?e @ body @ post) (length [tag]) 0 (0 :: 64 word)
        = Inr (of_nat n, length [tag] + length ?e)"
    by (rule decodeVarint_encodeVarintRing)
  then have v: "decodeVarint ?d 1 0 (0 :: 64 word) = Inr (of_nat n, 1 + length ?e)"
    by simp
  from len body have n: "n < 2 ^ 63" by simp
  then have s: "sint (of_nat n :: 64 word) = int n"
    by (rule sint_of_nat_64)
  from n have "n < 2 ^ 64"
    by (rule less_trans) simp
  then have u: "unat (of_nat n :: 64 word) = n"
    by (simp add: unat_of_nat)
  show ?thesis
    using t v assms(2) len body by (simp add: skipRing_def s u)
qed

lemma skipField_chunk:
  assumes "skipRing (chunk @ post) = Inr (length chunk)"
    and "length (pre @ chunk @ post) < 2 ^ 63"
  shows "skipField (pre @ chunk @ post) (length pre) = Inr (length pre + length chunk)"
  using assms by (simp add: skipField_def)

lemma wire_fields_step:
  assumes "decodeVarint dAtA i 0 (0 :: 64 word) = Inr (wire, i1)"
    and "skipField dAtA i = Inr j" and "i < length dAtA"
  shows "wire_fields dAtA i acc
         = wire_fields dAtA j (acc @ [(ucast (drop_bit 3 wire), unat (wire AND 7))])"
  using assms by (subst wire_fields.simps) simp

lemma wire_fields_end: "wire_fields dAtA (length dAtA) acc = Inr acc"
  by (subst wire_fields.simps) simp

lemma wire_fields_varint_chunk:
  assumes "tag < 0x80" and "unat ((ucast (tag AND 0x7F) :: 64 word) AND 7) = 0"
    and "length (pre @ (tag # encodeVarintRing w) @ post) < 2 ^ 63"
  shows "wire_fields (pre @ (tag # encodeVarintRing w) @ post) (length pre) acc
         = wire_fields (pre @ (tag # encodeVarintRing w) @ post)
             (length pre + length (tag # encodeVarintRing w))
             (acc @ [(ucast (drop_bit 3 (ucast (tag AND 0x7F) :: 64 word)), 0)])"
proof -
  let ?c = "tag # encodeVarintRing w"
  have t: "decodeVarint (pre @ ?c @ post) (length pre) 0 (0 :: 64 word)
           = Inr (ucast (tag AND 0x7F), length pre + 1)"
    using decodeVarint_tag [OF assms(1), of pre "encodeVarintRing w @ post"] by simp
  have "skipRing (?c @ post) = Inr (length ?c)"
    using skipRing_varint_field [OF assms(1,2), of w post] by simp
  then have s: "skipField (pre @ ?c @ post) (length pre) = Inr (length pre + length ?c)"
    using assms(3) by (rule skipField_chunk)
  show ?thesis
    using wire_fields_step [OF t s, of acc] assms(2) by simp
qed

lemma wire_fields_bytes_chunk:
  assumes "tag < 0x80" and "unat ((ucast (tag AND 0x7F) :: 64 word) AND 7) = 2"
    and "length (pre @ (tag # encodeVarintRing (of_nat (length body)) @ body) @ post) < 2 ^ 63"
  shows "wire_fields (pre @ (tag # encodeVarintRing (of_nat (length body)) @ body) @ post)
           (length pre) acc
         = wire_fields (pre @ (tag # encodeVarintRing (of_nat (length body)) @ body) @ post)
             (length pre + length (tag # encodeVarintRing (of_nat (length body) :: 64 word) @ body))
             (acc @ [(ucast (drop_bit 3 (ucast (tag AND 0x7F) :: 64 word)), 2)])"
proof -
  let ?c = "tag # encodeVarintRing (of_nat (length body) :: 64 word) @ body"
  have t: "decodeVarint (pre @ ?c @ post) (length pre) 0 (0 :: 64 word)
           = Inr (ucast (tag AND 0x7F), length pre + 1)"
    using decodeVarint_tag [OF assms(1), of pre
        "encodeVarintRing (of_nat (length body)) @ body @ post"] by simp
  have "skipRing (tag # encodeVarintRing (of_nat (length body)) @ body @ post)
        = Inr (1 + length (encodeVarintRing (of_nat (length body) :: 64 word)) + length body)"
    using assms(3) by (intro skipRing_bytes_field [OF assms(1,2)]) simp_all
  then have "skipRing (?c @ post) = Inr (length ?c)"
    by simp
  then have s: "skipField (pre @ ?c @ post) (length pre) = Inr (length pre + length ?c)"
    using assms(3) by (rule skipField_chunk)
  show ?thesis
    using wire_fields_step [OF t s, of acc] assms(2) by simp
qed

lemma wire_fields_MarshalTo:
  assumes size: "IngesterDesc_Size m < 2 ^ 63"
  shows "wire_fields (IngesterDesc_MarshalTo m) 0 []
         = Inr ((if length (Addr m) > 0 then [(1, 2)] else [])
                @ (if Timestamp m \<noteq> 0 then [(2, 0)] else [])
                @ (if State m \<noteq> 0 then [(3, 0)] else [])
                @ (if length (Tokens m) > 0 then [(6, 2)] else []))"
proof -
  define c1 where "c1 = (if length (Addr m) > 0
      then 0xa # encodeVarintRing (of_nat (length (Addr m))) @ Addr m else [])"
  define c2 where "c2 = (if Timestamp m \<noteq> 0 then 0x10 # encodeVarintRing (Timestamp m) else [])"
  define c3 where "c3 = (if State m \<noteq> 0 then 0x18 # encodeVarintRing (scast (State m)) else [])"
  define c4 where "c4 = (if length (Tokens m) > 0
        then 0x32 # encodeVarintRing (of_nat (length (concat (map packToken (Tokens m)))))
             @ concat (map packToken (Tokens m))
        else [])"
  define d where "d = c1 @ c2 @ c3 @ c4"
  define f1 :: "(32 word \<times> nat) list" where "f1 = (if length (Addr m) > 0 then [(1, 2)] else [])"
  define f2 :: "(32 word \<times> nat) list" where "f2 = (if Timestamp m \<noteq> 0 then [(2, 0)] else [])"
  define f3 :: "(32 word \<times> nat) list" where "f3 = (if State m \<noteq> 0 then [(3, 0)] else [])"
  define f4 :: "(32 word \<times> nat) list" where "f4 = (if length (Tokens m) > 0 then [(6, 2)] else [])"
  have d_eq: "IngesterDesc_MarshalTo m = d"
    by (simp add: IngesterDesc_MarshalTo_def d_def c1_def c2_def c3_def c4_def)
  have len: "length d < 2 ^ 63"
    using size IngesterDesc_MarshalTo_length [of m] d_eq by simp
  have s1: "wire_fields d 0 [] = wire_fields d (length c1) f1"
  proof (cases "length (Addr m) > 0")
    case False
    then show ?thesis by (simp add: c1_def f1_def)
  next
    case True
    then have c: "c1 = 0xa # encodeVarintRing (of_nat (length (Addr m))) @ Addr m"
      and f: "f1 = [(1, 2)]"
      by (simp_all add: c1_def f1_def)
    have "wire_fields ([] @ (0xa # encodeVarintRing (of_nat (length (Addr m))) @ Addr m)
              @ (c2 @ c3 @ c4)) (length ([] :: byte list)) []
          = wire_fields ([] @ (0xa # encodeVarintRing (of_nat (length (Addr m))) @ Addr m)
              @ (c2 @ c3 @ c4))
              (length ([] :: byte list)
               + length (0xa # encodeVarintRing (of_nat (length (Addr m)) :: 64 word) @ Addr m))
              ([] @ [(ucast (drop_bit 3 (ucast ((0xa :: byte) AND 0x7F) :: 64 word)), 2)])"
      using len by (intro wire_fields_bytes_chunk) (simp_all add: d_def c)
    then show ?thesis
      by (simp add: d_def c f add.assoc)
  qed
  have s2: "wire_fields d (length c1) f1 = wire_fields d (length (c1 @ c2)) (f1 @ f2)"
  proof (cases "Timestamp m \<noteq> 0")
    case False
    then show ?thesis by (simp add: c2_def f2_def)
  next
    case True
    then have c: "c2 = 0x10 # encodeVarintRing (Timestamp m)" and f: "f2 = [(2, 0)]"
      by (simp_all add: c2_def f2_def)
    have "wire_fields (c1 @ (0x10 # encodeVarintRing (Timestamp m)) @ (c3 @ c4)) (length c1) f1
          = wire_fields (c1 @ (0x10 # encodeVarintRing (Timestamp m)) @ (c3 @ c4))
              (length c1 + length (0x10 # encodeVarintRing (Timestamp m)))
              (f1 @ [(ucast (drop_bit 3 (ucast ((0x10 :: byte) AND 0x7F) :: 64 word)), 0)])"
      using len by (intro wire_fields_varint_chunk) (simp_all add: d_def c)
    then show ?thesis
      by (simp add: d_def c f add.assoc)
  qed
  have s3: "wire_fields d (length (c1 @ c2)) (f1 @ f2)
            = wire_fields d (length (c1 @ c2 @ c3)) (f1 @ f2 @ f3)"
  proof (cases "State m \<noteq> 0")
    case False
    then show ?thesis by (simp add: c3_def f3_def)
  next
    case True
    then have c: "c3 = 0x18 # encodeVarintRing (scast (State m))" and f: "f3 = [(3, 0)]"
      by (simp_all add: c3_def f3_def)
    have "wire_fields ((c1 @ c2) @ (0x18 # encodeVarintRing (scast (State m))) @ c4)
              (length (c1 @ c2)) (f1 @ f2)
          = wire_fields ((c1 @ c2) @ (0x18 # encodeVarintRing (scast (State m))) @ c4)
              (length (c1 @ c2) + length (0x18 # encodeVarintRing (scast (State m))))
              ((f1 @ f2) @ [(ucast (drop_bit 3 (ucast ((0x18 :: byte) AND 0x7F) :: 64 word)), 0)])"
      using len by (intro wire_fields_varint_chunk) (simp_all add: d_def c)
    then show ?thesis
      by (simp add: d_def c f add.assoc)
  qed
  have s4: "wire_fields d (length (c1 @ c2 @ c3)) (f1 @ f2 @ f3)
            = wire_fields d (length d) (f1 @ f2 @ f3 @ f4)"
  proof (cases "length (Tokens m) > 0")
    case False
    then show ?thesis by (simp add: c4_def f4_def d_def)
  next
    case True
    let ?p = "concat (map packToken (Tokens m))"
    from True have c: "c4 = 0x32 # encodeVarintRing (of_nat (length ?p)) @ ?p"
      and f: "f4 = [(6, 2)]"
      by (simp_all add: c4_def f4_def)
    have "wire_fields ((c1 @ c2 @ c3) @ (0x32 # encodeVarintRing (of_nat (length ?p)) @ ?p) @ [])
              (length (c1 @ c2 @ c3)) (f1 @ f2 @ f3)
          = wire_fields ((c1 @ c2 @ c3) @ (0x32 # encodeVarintRing (of_nat (length ?p)) @ ?p) @ [])
              (length (c1 @ c2 @ c3)
               + length (0x32 # encodeVarintRing (of_nat (length ?p) :: 64 word) @ ?p))
              ((f1 @ f2 @ f3)
               @ [(ucast (drop_bit 3 (ucast ((0x32 :: byte) AND 0x7F) :: 64 word)), 2)])"
      using len by (intro wire_fields_bytes_chunk) (simp_all add: d_def c)
    then show ?thesis
      by (simp add: d_def c f add.assoc)
  qed
  have "wire_fields d 0 [] = Inr (f1 @ f2 @ f3 @ f4)"
    by (simp only: s1 s2 s3 s4 wire_fields_end)
  then show ?thesis
    by (simp only: d_eq f1_def f2_def f3_def f4_def)
qed

text \<open>
  A field with a number other than 1, 2, 3 and 6: the tag is any varint \<open>t\<close> whose
  field number is positive, followed by a varint or by a length and that many bytes.
  \<open>Unmarshal\<close> steps over it with \<open>skipRing\<close> and keeps the descriptor.
\<close>

lemma encodeVarintRing_nonempty: "encodeVarintRing v \<noteq> []"
  by (subst encodeVarintRing.simps) simp

lemma skipRing_varint_tagged:
  assumes "unat (t AND 7) = 0"
  shows "skipRing (encodeVarintRing t @ encodeVarintRing w @ post)
         = Inr (length (encodeVarintRing t) + length (encodeVarintRing w))"
proof -
  let ?d = "encodeVarintRing t @ encodeVarintRing w @ post"
  have t: "decodeVarint ?d 0 0 (0 :: 64 word) = Inr (t, length (encodeVarintRing t))"
    using decodeVarint_encodeVarintRing [of "[]" t "encodeVarintRing w @ post"] by simp
  have "decodeVarint ?d (length (encodeVarintRing t)) 0 (0 :: 64 word)
        = Inr (w, length (encodeVarintRing t) + length (encodeVarintRing w))"
    by (rule decodeVarint_encodeVarintRing)
  then have "skipVarint ?d (length (encodeVarintRing t)) 0
             = Inr (length (encodeVarintRing t) + length (encodeVarintRing w))"
    by (simp add: skipVarint_decodeVarint [where acc = 0])
  then show ?thesis
    using t assms encodeVarintRing_nonempty [of t] by (simp add: skipRing_def)
qed

lemma skipRing_bytes_tagged:
  assumes "unat (t AND 7) = 2"
    and len: "length (encodeVarintRing t @ encodeVarintRing (of_nat (length body)) @ body @ post)
              < 2 ^ 63"
  shows "skipRing (encodeVarintRing t @ encodeVarintRing (of_nat (length body)) @ body @ post)
         = Inr (length (encodeVarintRing t)
                + length (encodeVarintRing (of_nat (length body) :: 64 word)) + length body)"
proof -
  let ?e = "encodeVarintRing (of_nat (length body) :: 64 word)"
  let ?d = "encodeVarintRing t @ ?e @ body @ post"
  have t: "decodeVarint ?d 0 0 (0 :: 64 word) = Inr (t, length (encodeVarintRing t))"
    using decodeVarint_encodeVarintRing [of "[]" t "?e @ body @ post"] by simp
  have v: "decodeVarint ?d (length (encodeVarintRing t)) 0 (0 :: 64 word)
        = Inr (of_nat (length body), length (encodeVarintRing t) + length ?e)"
    by (rule decodeVarint_encodeVarintRing)
  from len have n: "length body < 2 ^ 63" by simp
  then have s: "sint (of_nat (length body) :: 64 word) = int (length body)"
    by (rule sint_of_nat_64)
  from n have "length body < 2 ^ 64"
    by (rule less_trans) simp
  then have u: "unat (of_nat (length body) :: 64 word) = length body"
    by (simp add: unat_of_nat)
  show ?thesis
    using t v assms(1) len encodeVarintRing_nonempty [of t] by (simp add: skipRing_def s u)
qed

lemma unknown_varint_field:
  assumes wt: "unat (t AND 7) = 0"
    and pos: "0 < sint (ucast (drop_bit 3 t) :: 32 word)"
    and other: "(ucast (drop_bit 3 t) :: 32 word) \<notin> {1, 2, 3, 6}"
    and len: "length (pre @ encodeVarintRing t @ encodeVarintRing w @ post) < 2 ^ 63"
  shows "IngesterDesc_Unmarshal_field (pre @ encodeVarintRing t @ encodeVarintRing w @ post)
           (length pre) m
         = Inr (m, length pre + length (encodeVarintRing t @ encodeVarintRing w))"
proof -
  let ?d = "pre @ encodeVarintRing t @ encodeVarintRing w @ post"
  have tag: "decodeVarint ?d (length pre) 0 (0 :: 64 word)
             = Inr (t, length pre + length (encodeVarintRing t))"
    by (rule decodeVarint_encodeVarintRing)
  have "skipRing ((encodeVarintRing t @ encodeVarintRing w) @ post)
        = Inr (length (encodeVarintRing t @ encodeVarintRing w))"
    using skipRing_varint_tagged [OF wt, of w post] by simp
  then have "skipField (pre @ (encodeVarintRing t @ encodeVarintRing w) @ post) (length pre)
        = Inr (length pre + length (encodeVarintRing t @ encodeVarintRing w))"
    using len by (intro skipField_chunk) simp_all
  then have sk: "skipField ?d (length pre)
        = Inr (length pre + length (encodeVarintRing t @ encodeVarintRing w))"
    by simp
  show ?thesis
    using tag wt pos other sk by (simp add: IngesterDesc_Unmarshal_field_def)
qed

lemma unknown_bytes_field:
  assumes wt: "unat (t AND 7) = 2"
    and pos: "0 < sint (ucast (drop_bit 3 t) :: 32 word)"
    and other: "(ucast (drop_bit 3 t) :: 32 word) \<notin> {1, 2, 3, 6}"
    and len: "length (pre @ encodeVarintRing t @ encodeVarintRing (of_nat (length body))
                @ body @ post) < 2 ^ 63"
  shows "IngesterDesc_Unmarshal_field
           (pre @ encodeVarintRing t @ encodeVarintRing (of_nat (length body)) @ body @ post)
           (length pre) m
         = Inr (m, length pre
                + length (encodeVarintRing t @ encodeVarintRing (of_nat (length body)) @ body))"
proof -
  let ?e = "encodeVarintRing (of_nat (length body) :: 64 word)"
  let ?d = "pre @ encodeVarintRing t @ ?e @ body @ post"
  have tag: "decodeVarint ?d (length pre) 0 (0 :: 64 word)
             = Inr (t, length pre + length (encodeVarintRing t))"
    by (rule decodeVarint_encodeVarintRing)
  have "skipRing ((encodeVarintRing t @ ?e @ body) @ post)
        = Inr (length (encodeVarintRing t @ ?e @ body))"
    using skipRing_bytes_tagged [OF wt, of body post] len by simp
  then have "skipField (pre @ (encodeVarintRing t @ ?e @ body) @ post) (length pre)
        = Inr (length pre + length (encodeVarintRing t @ ?e @ body))"
    using len by (intro skipField_chunk) simp_all
  then have sk: "skipField ?d (length pre)
        = Inr (length pre + length (encodeVarintRing t @ ?e @ body))"
    by simp
  show ?thesis
    using tag wt pos other sk by (simp add: IngesterDesc_Unmarshal_field_def)
qed

lemma IngesterDesc_Unmarshal_unknown_fields:
  assumes u: "unat (u AND 7) = 2" "0 < sint (ucast (drop_bit 3 u) :: 32 word)"
      "(ucast (drop_bit 3 u) :: 32 word) \<notin> {1, 2, 3, 6}"
    and t: "unat (t AND 7) = 0" "0 < sint (ucast (drop_bit 3 t) :: 32 word)"
      "(ucast (drop_bit 3 t) :: 32 word) \<notin> {1, 2, 3, 6}"
    and len: "length (IngesterDesc_MarshalTo m
                @ (encodeVarintRing u @ encodeVarintRing (of_nat (length body)) @ body)
                @ (encodeVarintRing t @ encodeVarintRing v)) < 2 ^ 63"
  shows "IngesterDesc_Unmarshal
           (IngesterDesc_MarshalTo m
            @ (encodeVarintRing u @ encodeVarintRing (of_nat (length body)) @ body)
            @ (encodeVarintRing t @ encodeVarintRing v))
           IngesterDesc_zero = Inr m"
proof -
  let ?a = "IngesterDesc_MarshalTo m"
  let ?b = "encodeVarintRing u @ encodeVarintRing (of_nat (length body)) @ body"
  let ?c = "encodeVarintRing t @ encodeVarintRing v"
  let ?d = "?a @ ?b @ ?c"
  have b: "length ?a < length ?d"
    using encodeVarintRing_nonempty [of u] by simp
  have c: "length (?a @ ?b) < length ?d"
    using encodeVarintRing_nonempty [of t] by simp
  have "IngesterDesc_Unmarshal_field
          (?a @ encodeVarintRing u @ encodeVarintRing (of_nat (length body)) @ body @ ?c)
          (length ?a) m = Inr (m, length ?a + length ?b)"
    using len by (intro unknown_bytes_field [OF u]) simp
  then have f1: "IngesterDesc_Unmarshal_field ?d (length ?a) m = Inr (m, length (?a @ ?b))"
    by simp
  have "IngesterDesc_Unmarshal_field
          ((?a @ ?b) @ encodeVarintRing t @ encodeVarintRing v @ []) (length (?a @ ?b)) m
        = Inr (m, length (?a @ ?b) + length ?c)"
    using len by (intro unknown_varint_field [OF t]) simp
  then have f2: "IngesterDesc_Unmarshal_field ?d (length (?a @ ?b)) m = Inr (m, length ?d)"
    by (simp add: add.assoc)
  have "IngesterDesc_Unmarshal ?d IngesterDesc_zero
        = IngesterDesc_Unmarshal_loop ?d (length ?a) m"
    unfolding IngesterDesc_Unmarshal_def using len by (intro IngesterDesc_loop_MarshalTo)
  also have "\<dots> = IngesterDesc_Unmarshal_loop ?d (length (?a @ ?b)) m"
    using f1 b by (rule IngesterDesc_loop_step)
  also have "\<dots> = IngesterDesc_Unmarshal_loop ?d (length ?d) m"
    using f2 c by (rule IngesterDesc_loop_step)
  also have "\<dots> = Inr m"
    by (rule IngesterDesc_loop_end)
  finally show ?thesis .
qed

lemma IngesterState_name_defined:
  "(IngesterState_name s \<noteq> None) = (s \<in> {0, 1, 2, 3, 4})"
  by (simp add: IngesterState_name_def)


section \<open>Evaluation on concrete bytes\<close>

lemma skipRing_eval:
  "skipRing dAtA =
     (if length dAtA = 0 then Inl PanicUnreachable
      else case decodeVarint dAtA 0 0 (0 :: 64 word) of
          Inl e \<Rightarrow> Inl e
        | Inr (wire, iNdEx) \<Rightarrow>
            if unat (wire AND 7) = 0 then skipVarint dAtA iNdEx 0
            else if unat (wire AND 7) = 1 then Inr (iNdEx + 8)
            else if unat (wire AND 7) = 2 then
              (case decodeVarint dAtA iNdEx 0 (0 :: 64 word) of
                 Inl e \<Rightarrow> Inl e
               | Inr (len, i) \<Rightarrow>
                   if sint len < 0 then Inl ErrInvalidLengthRing
                   else if i + unat len \<ge> 2 ^ 63 then Inl ErrInvalidLengthRing
                   else Inr (i + unat len))
            else if unat (wire AND 7) = 3 then
              (case skipGroup_fuel (2 * length dAtA) dAtA iNdEx of
                 None \<Rightarrow> Inl PanicUnreachable
               | Some r \<Rightarrow> r)
            else if unat (wire AND 7) = 4 then Inr iNdEx
            else if unat (wire AND 7) = 5 then Inr (iNdEx + 4)
            else Inl (ErrIllegalWireType (unat (wire AND 7))))"
  by (simp add: skipRing_def split: sum.splits prod.splits)

lemmas eval_simps =
  decodeVarint.simps skipVarint.simps decodeLength_def slice_def skipRing_eval skipField_def
  unpackTokens.simps IngesterDesc_Unmarshal_field_def IngesterDesc_Unmarshal_loop.simps
  IngesterDesc_Unmarshal_def Desc_Unmarshal_entry_field_def Desc_Unmarshal_entry_loop.simps
  Desc_Unmarshal_field_def Desc_Unmarshal_loop.simps Desc_Unmarshal_def
  encodeVarintRing.simps sovRing.simps packToken.simps IngesterDesc_Size_def
  IngesterDesc_MarshalTo_def Desc_entry_Size_def Desc_Size_def Desc_entry_MarshalTo_def
  Desc_MarshalTo_def IngesterDesc_Marshal_def Desc_Marshal_def IngesterDesc_zero_def
  wire_fields.simps Let_def word_le_nat_alt word_less_nat_alt


lemma unknown_tags:
  "unat ((0x40 :: 64 word) AND 7) = 0"
  "0 < sint (ucast (drop_bit 3 (0x40 :: 64 word)) :: 32 word)"
  "(ucast (drop_bit 3 (0x40 :: 64 word)) :: 32 word) \<notin> {1, 2, 3, 6}"
  "unat ((0x3a :: 64 word) AND 7) = 2"
  "0 < sint (ucast (drop_bit 3 (0x3a :: 64 word)) :: 32 word)"
  "(ucast (drop_bit 3 (0x3a :: 64 word)) :: 32 word) \<notin> {1, 2, 3, 6}"
  by simp_all

lemma unknown_tags_encoded:
  "encodeVarintRing 0x40 = [0x40]" "encodeVarintRing 5 = [5]"
  "encodeVarintRing 0x3a = [0x3a]" "encodeVarintRing 1 = [1]"
  by (simp_all add: eval_simps)

section \<open>The token loop\<close>

lemma GenerateTokens_loop_returns:
  "nat (numTokens - i) \<le> card (r ` {pos..<pos + n} - used) \<Longrightarrow>
   \<exists>ts. GenerateTokens_loop r numTokens pos i used tokens = Some (tokens @ ts)
        \<and> length ts = nat (numTokens - i) \<and> distinct ts \<and> set ts \<inter> used = {}"
proof (induction n arbitrary: pos i used tokens)
  case 0
  then have "\<not> i < numTokens" by simp
  then show ?case
    by (subst GenerateTokens_loop.simps) simp
next
  case (Suc n)
  show ?case
  proof (cases "i < numTokens")
    case False
    then show ?thesis
      by (subst GenerateTokens_loop.simps) simp
  next
    case True
    have window: "{pos..<pos + Suc n} = insert pos {pos + 1..<(pos + 1) + n}"
      by auto
    define A where "A = r ` {pos + 1..<(pos + 1) + n}"
    have fin: "finite A" by (simp add: A_def)
    from Suc.prems have need: "nat (numTokens - i) \<le> card (insert (r pos) A - used)"
      by (simp only: window image_insert A_def)
    show ?thesis
    proof (cases "r pos \<in> used")
      case in_used: True
      then have "insert (r pos) A - used = A - used" by auto
      with need have "nat (numTokens - i) \<le> card (r ` {pos + 1..<(pos + 1) + n} - used)"
        by (simp add: A_def)
      from Suc.IH [OF this, of tokens] obtain ts where
        "GenerateTokens_loop r numTokens (pos + 1) i used tokens = Some (tokens @ ts)"
        "length ts = nat (numTokens - i)" "distinct ts" "set ts \<inter> used = {}"
        by blast
      with True in_used show ?thesis
        by (subst GenerateTokens_loop.simps) simp
    next
      case fresh: False
      have "insert (r pos) A - used - {r pos} = A - insert (r pos) used" by auto
      moreover have "card (insert (r pos) A - used - {r pos}) \<ge> card (insert (r pos) A - used) - 1"
        using fin by (simp add: card_Diff_singleton_if)
      ultimately have "card (insert (r pos) A - used) - 1 \<le> card (A - insert (r pos) used)"
        by simp
      with need True have "nat (numTokens - (i + 1))
          \<le> card (r ` {pos + 1..<(pos + 1) + n} - insert (r pos) used)"
        by (simp add: A_def nat_diff_distrib)
      from Suc.IH [OF this, of "tokens @ [r pos]"] obtain ts where ts:
        "GenerateTokens_loop r numTokens (pos + 1) (i + 1) (insert (r pos) used)
           (tokens @ [r pos]) = Some ((tokens @ [r pos]) @ ts)"
        "length ts = nat (numTokens - (i + 1))" "distinct ts"
        "set ts \<inter> insert (r pos) used = {}"
        by blast
      have "GenerateTokens_loop r numTokens pos i used tokens = Some (tokens @ (r pos # ts))"
        using True fresh ts(1) by (subst GenerateTokens_loop.simps) simp
      moreover have "length (r pos # ts) = nat (numTokens - i)"
        using True ts(2) by simp
      moreover have "distinct (r pos # ts)"
        using ts(3,4) by auto
      moreover have "set (r pos # ts) \<inter> used = {}"
        using fresh ts(4) by auto
      ultimately show ?thesis by blast
    qed
  qed
qed


text \<open>
  What the loop returns when it returns: the tokens it had, then as many new ones as were
  missing, pairwise distinct and outside the used set.
\<close>

lemma GenerateTokens_loop_result:
  assumes "GenerateTokens_loop r numTokens pos i used tokens = Some res"
  shows "\<exists>ts. res = tokens @ ts \<and> length ts = nat (numTokens - i) \<and> distinct ts
        \<and> set ts \<inter> used = {}"
proof (rule GenerateTokens_loop.raw_induct
    [where P = "\<lambda>r numTokens pos i used tokens res.
       \<exists>ts. res = tokens @ ts \<and> length ts = nat (numTokens - i) \<and> distinct ts
            \<and> set ts \<inter> used = {}", OF _ assms])
  fix loop :: "(nat \<Rightarrow> 32 word) \<Rightarrow> int \<Rightarrow> nat \<Rightarrow> int \<Rightarrow> 32 word set \<Rightarrow> 32 word list
     \<Rightarrow> 32 word list option"
  fix r numTokens pos i used tokens res
  assume IH: "\<And>r numTokens pos i used tokens res.
      loop r numTokens pos i used tokens = Some res \<Longrightarrow>
      \<exists>ts. res = tokens @ ts \<and> length ts = nat (numTokens - i) \<and> distinct ts
           \<and> set ts \<inter> used = {}"
  assume step: "(if i < numTokens
      then if r pos \<in> used
           then loop r numTokens (pos + 1) i used tokens
           else loop r numTokens (pos + 1) (i + 1) (insert (r pos) used) (tokens @ [r pos])
      else Some tokens) = Some res"
  show "\<exists>ts. res = tokens @ ts \<and> length ts = nat (numTokens - i) \<and> distinct ts
           \<and> set ts \<inter> used = {}"
  proof (cases "i < numTokens")
    case False
    with step show ?thesis by simp
  next
    case True
    show ?thesis
    proof (cases "r pos \<in> used")
      case in_used: True
      with True step have "loop r numTokens (pos + 1) i used tokens = Some res" by simp
      from IH [OF this] show ?thesis .
    next
      case fresh: False
      with True step have "loop r numTokens (pos + 1) (i + 1) (insert (r pos) used)
          (tokens @ [r pos]) = Some res" by simp
      from IH [OF this] obtain ts where ts: "res = (tokens @ [r pos]) @ ts"
        "length ts = nat (numTokens - (i + 1))" "distinct ts"
        "set ts \<inter> insert (r pos) used = {}"
        by blast
      have "res = tokens @ (r pos # ts)" using ts(1) by simp
      moreover have "length (r pos # ts) = nat (numTokens - i)" using True ts(2) by simp
      moreover have "distinct (r pos # ts)" using ts(3,4) by auto
      moreover have "set (r pos # ts) \<inter> used = {}" using fresh ts(4) by auto
      ultimately show ?thesis by blast
    qed
  qed
qed

lemma GenerateTokens_result:
  assumes "GenerateTokens k taken r = Some res"
  shows "length res = nat k \<and> distinct res \<and> set res \<inter> set taken = {}"
  using GenerateTokens_loop_result [of r k 0 0 "set taken" "[]" res] assms
  by (auto simp add: GenerateTokens_def)

lemma GenerateTokens_nonpositive: "k \<le> 0 \<Longrightarrow> GenerateTokens k taken r = Some []"
  by (simp add: GenerateTokens_def GenerateTokens_loop.simps)

lemma GenerateTokens_exhausted:
  assumes "card (UNIV - set taken) < nat k"
  shows "GenerateTokens k taken r = None"
proof (rule ccontr)
  assume "GenerateTokens k taken r \<noteq> None"
  then obtain res where res: "GenerateTokens k taken r = Some res" by blast
  from GenerateTokens_result [OF this]
  have l: "length res = nat k" and d: "distinct res" and s: "set res \<inter> set taken = {}"
    by simp_all
  have "set res \<subseteq> UNIV - set taken" using s by blast
  then have "card (set res) \<le> card (UNIV - set taken)"
    by (intro card_mono) simp_all
  with d l assms show False
    by (simp add: distinct_card)
qed

lemma GenerateTokens_returns:
  assumes "0 \<le> k" and "nat k \<le> card (r ` {0..<n} - set taken)"
  shows "\<exists>tokens. GenerateTokens k taken r = Some tokens
           \<and> int (length tokens) = k
           \<and> set tokens \<inter> set taken = {}
           \<and> distinct tokens
           \<and> (distinct taken \<longrightarrow> distinct (taken @ tokens))"
proof -
  from assms(2) have "nat (k - 0) \<le> card (r ` {0..<0 + n} - set taken)"
    by simp
  from GenerateTokens_loop_returns [OF this, of "[]"] obtain ts where
    "GenerateTokens_loop r k 0 0 (set taken) [] = Some ts"
    "length ts = nat k" "distinct ts" "set ts \<inter> set taken = {}"
    by auto
  with assms(1) show ?thesis
    by (auto simp: GenerateTokens_def)
qed

lemma all_tokens: "set (map word_of_nat [0..<2 ^ 32]) = (UNIV :: 32 word set)"
  using UNIV_word_eq_word_of_nat [where ?'a = 32] by simp

section \<open>Properties of the replication strategies\<close>

lemma fmt_d_small [simp]:
  "fmt_d 0 = ''0''" "fmt_d 1 = ''1''" "fmt_d 2 = ''2''" "fmt_d 3 = ''3''" "fmt_d 4 = ''4''"
  by (simp_all add: fmt_d_def fmt_nat.simps)

lemma IsHealthy_live:
  "0 \<le> now \<Longrightarrow> now < 2 ^ 63 \<Longrightarrow>
   IsHealthy (IngesterDesc_zero\<lparr>Timestamp := word_of_int now\<rparr>) Read 100 now"
  by (simp add: IsHealthy_def allowedStates_def IngesterDesc_zero_def ACTIVE_def
      sint_sbintrunc' signed_take_bit_int_eq_self)

lemma IsHealthy_dead: "100 < now \<Longrightarrow> \<not> IsHealthy IngesterDesc_zero Read 100 now"
  by (simp add: IsHealthy_def IngesterDesc_zero_def)

lemma filter_case_ingesters:
  assumes "100 < now" "now < 2 ^ 63"
  shows "filter (\<lambda>i. IsHealthy i Read 100 now) (case_ingesters now tc)
         = replicate (liveIngesters tc) (IngesterDesc_zero\<lparr>Timestamp := word_of_int now\<rparr>)"
proof -
  have live: "IsHealthy (IngesterDesc_zero\<lparr>Timestamp := word_of_int now\<rparr>) Read 100 now"
    using assms by (intro IsHealthy_live) simp_all
  have dead: "\<not> IsHealthy IngesterDesc_zero Read 100 now"
    using assms by (intro IsHealthy_dead)
  show ?thesis
    by (simp add: case_ingesters_def live dead)
qed


lemma ignoreUnhealthy_passes_its_test:
  assumes "100 < now" "now < 2 ^ 63"
  shows "list_all (case_passes ignoreUnhealthyInstancesReplicationStrategy_Filter now)
           TestIgnoreUnhealthyInstancesReplicationStrategy_cases"
  using assms
  by (simp add: TestIgnoreUnhealthyInstancesReplicationStrategy_cases_def case_passes_def
      ignoreUnhealthyInstancesReplicationStrategy_Filter_def filter_case_ingesters)









lemma default_Filter_unfold:
  "defaultReplicationStrategy_Filter ingesters op rf t z now =
     (if int (length (filter (\<lambda>i. IsHealthy i op t now) ingesters)) < rf div 2 + 1
      then Inl (''at least '' @ fmt_d (rf div 2 + 1)
                @ '' live replicas required, could only find ''
                @ fmt_d (int (length (filter (\<lambda>i. IsHealthy i op t now) ingesters))))
      else Inr (filter (\<lambda>i. IsHealthy i op t now) ingesters,
                int (length (filter (\<lambda>i. IsHealthy i op t now) ingesters)) - (rf div 2 + 1)))"
  by (simp add: defaultReplicationStrategy_Filter_def Let_def)


lemma default_fails_large_cases:
  assumes "100 < now" "now < 2 ^ 63"
  shows "list_all (\<lambda>tc. \<not> case_passes defaultReplicationStrategy_Filter now tc)
           (filter (\<lambda>tc. int (liveIngesters tc + deadIngesters tc) > replifcationFactor tc)
              TestRingReplicationStrategy_cases)"
  using assms
  by (simp add: TestRingReplicationStrategy_cases_def case_passes_def
      default_Filter_unfold filter_case_ingesters)

section \<open>The claims\<close>






text \<open>
  C3. The ignore-unhealthy strategy requires one success: with \<open>n \<ge> 1\<close> healthy
  candidates it returns them with \<open>maxErrors = n - 1\<close>, with none it fails with the
  error "at least 1 healthy replica required, could only find 0".
\<close>

theorem ignoreUnhealthy_Filter_one:
  "(0 < length (filter (\<lambda>i. IsHealthy i op t now) ingesters)
      \<longrightarrow> ignoreUnhealthyInstancesReplicationStrategy_Filter ingesters op rf t z now
          = Inr (filter (\<lambda>i. IsHealthy i op t now) ingesters,
                 int (length (filter (\<lambda>i. IsHealthy i op t now) ingesters)) - 1))
   \<and> (length (filter (\<lambda>i. IsHealthy i op t now) ingesters) = 0
      \<longrightarrow> ignoreUnhealthyInstancesReplicationStrategy_Filter ingesters op rf t z now
          = Inl ''at least 1 healthy replica required, could only find 0'')"
  by (simp add: ignoreUnhealthyInstancesReplicationStrategy_Filter_def Let_def)

text \<open>
  The theorem at the last two cases of the test table: two live and two dead ingesters,
  and three dead ones.
\<close>

theorem ignoreUnhealthy_Filter_one_witness:
  "0 < length (filter (\<lambda>i. IsHealthy i Read 100 1600000000)
         (case_ingesters 1600000000 (TestIgnoreUnhealthyInstancesReplicationStrategy_cases ! 3)))
   \<and> ignoreUnhealthyInstancesReplicationStrategy_Filter
        (case_ingesters 1600000000 (TestIgnoreUnhealthyInstancesReplicationStrategy_cases ! 3))
        Read 3 100 False 1600000000
      = Inr (replicate 2 (IngesterDesc_zero\<lparr>Timestamp := 1600000000\<rparr>), 1)
   \<and> length (filter (\<lambda>i. IsHealthy i Read 100 1600000000)
         (case_ingesters 1600000000 (TestIgnoreUnhealthyInstancesReplicationStrategy_cases ! 4))) = 0
   \<and> ignoreUnhealthyInstancesReplicationStrategy_Filter
        (case_ingesters 1600000000 (TestIgnoreUnhealthyInstancesReplicationStrategy_cases ! 4))
        Read 3 100 False 1600000000
      = Inl ''at least 1 healthy replica required, could only find 0''"
proof -
  have h3: "filter (\<lambda>i. IsHealthy i Read 100 1600000000)
         (case_ingesters 1600000000 (TestIgnoreUnhealthyInstancesReplicationStrategy_cases ! 3))
        = replicate 2 (IngesterDesc_zero\<lparr>Timestamp := 1600000000\<rparr>)"
    by (simp add: filter_case_ingesters TestIgnoreUnhealthyInstancesReplicationStrategy_cases_def)
  have h4: "filter (\<lambda>i. IsHealthy i Read 100 1600000000)
         (case_ingesters 1600000000 (TestIgnoreUnhealthyInstancesReplicationStrategy_cases ! 4))
        = []"
    by (simp add: filter_case_ingesters TestIgnoreUnhealthyInstancesReplicationStrategy_cases_def)
  from ignoreUnhealthy_Filter_one
    [of Read 100 1600000000
        "case_ingesters 1600000000 (TestIgnoreUnhealthyInstancesReplicationStrategy_cases ! 3)"
        3 False]
    ignoreUnhealthy_Filter_one
    [of Read 100 1600000000
        "case_ingesters 1600000000 (TestIgnoreUnhealthyInstancesReplicationStrategy_cases ! 4)"
        3 False]
  show ?thesis
    by (simp add: h3 h4)
qed

text \<open>
  C4, as amended. The serialized \<open>IngesterDesc\<close> carries exactly four fields, each
  left out when it has its zero value: field 1, length-delimited (the address); field 2,
  a varint (the timestamp); field 3, a varint (the state, an enum that names the values
  0 to 4); field 6, length-delimited (the packed tokens). \<open>Marshal\<close> writes them in
  this order and nothing else, and \<open>Unmarshal\<close> reads the descriptor back from them.
  There is no zone and no registered_at field: a well-formed varint or length-delimited
  field with any other positive number is stepped over, wherever it stands, and leaves
  the descriptor as it was; after such fields the descriptor read is the one that was
  written. A field of wire type 7 is refused.
\<close>

theorem IngesterDesc_wire_format:
  "(IngesterDesc_Size m < 2 ^ 63 \<longrightarrow>
      IngesterDesc_Marshal m = Inr (IngesterDesc_MarshalTo m)
      \<and> wire_fields (IngesterDesc_MarshalTo m) 0 []
          = Inr ((if length (Addr m) > 0 then [(1, 2)] else [])
                 @ (if Timestamp m \<noteq> 0 then [(2, 0)] else [])
                 @ (if State m \<noteq> 0 then [(3, 0)] else [])
                 @ (if length (Tokens m) > 0 then [(6, 2)] else []))
      \<and> IngesterDesc_Unmarshal (IngesterDesc_MarshalTo m) IngesterDesc_zero = Inr m)
   \<and> ((IngesterState_name s \<noteq> None) = (s \<in> {0, 1, 2, 3, 4}))
   \<and> (unat (t AND 7) = 0 \<and> 0 < sint (ucast (drop_bit 3 t) :: 32 word)
        \<and> (ucast (drop_bit 3 t) :: 32 word) \<notin> {1, 2, 3, 6}
        \<and> length (pre @ encodeVarintRing t @ encodeVarintRing v @ post) < 2 ^ 63
      \<longrightarrow> IngesterDesc_Unmarshal_field
            (pre @ encodeVarintRing t @ encodeVarintRing v @ post) (length pre) m
          = Inr (m, length pre + length (encodeVarintRing t @ encodeVarintRing v)))
   \<and> (unat (u AND 7) = 2 \<and> 0 < sint (ucast (drop_bit 3 u) :: 32 word)
        \<and> (ucast (drop_bit 3 u) :: 32 word) \<notin> {1, 2, 3, 6}
        \<and> length (pre @ encodeVarintRing u @ encodeVarintRing (of_nat (length body))
                   @ body @ post) < 2 ^ 63
      \<longrightarrow> IngesterDesc_Unmarshal_field
            (pre @ encodeVarintRing u @ encodeVarintRing (of_nat (length body)) @ body @ post)
            (length pre) m
          = Inr (m, length pre
                 + length (encodeVarintRing u @ encodeVarintRing (of_nat (length body))
                           @ body)))
   \<and> (unat (u AND 7) = 2 \<and> 0 < sint (ucast (drop_bit 3 u) :: 32 word)
        \<and> (ucast (drop_bit 3 u) :: 32 word) \<notin> {1, 2, 3, 6}
        \<and> unat (t AND 7) = 0 \<and> 0 < sint (ucast (drop_bit 3 t) :: 32 word)
        \<and> (ucast (drop_bit 3 t) :: 32 word) \<notin> {1, 2, 3, 6}
        \<and> length (IngesterDesc_MarshalTo m
                   @ (encodeVarintRing u @ encodeVarintRing (of_nat (length body)) @ body)
                   @ (encodeVarintRing t @ encodeVarintRing v)) < 2 ^ 63
      \<longrightarrow> IngesterDesc_Unmarshal
            (IngesterDesc_MarshalTo m
             @ (encodeVarintRing u @ encodeVarintRing (of_nat (length body)) @ body)
             @ (encodeVarintRing t @ encodeVarintRing v))
            IngesterDesc_zero = Inr m)
   \<and> IngesterDesc_Unmarshal_field [0x3f, 0] 0 m = Inl (ErrIllegalWireType 7)"
proof (intro conjI impI)
  show "IngesterDesc_Unmarshal_field [0x3f, 0] 0 m = Inl (ErrIllegalWireType 7)"
    by (simp add: eval_simps)
next
  assume size: "IngesterDesc_Size m < 2 ^ 63"
  show "IngesterDesc_Marshal m = Inr (IngesterDesc_MarshalTo m)"
    using size IngesterDesc_MarshalTo_length [of m] by (simp add: IngesterDesc_Marshal_def)
  show "wire_fields (IngesterDesc_MarshalTo m) 0 []
          = Inr ((if length (Addr m) > 0 then [(1, 2)] else [])
                 @ (if Timestamp m \<noteq> 0 then [(2, 0)] else [])
                 @ (if State m \<noteq> 0 then [(3, 0)] else [])
                 @ (if length (Tokens m) > 0 then [(6, 2)] else []))"
    using size wire_fields_MarshalTo [of m] IngesterDesc_MarshalTo_length [of m] by simp
  show "IngesterDesc_Unmarshal (IngesterDesc_MarshalTo m) IngesterDesc_zero = Inr m"
    using size by (rule IngesterDesc_roundtrip)
next
  show "(IngesterState_name s \<noteq> None) = (s \<in> {0, 1, 2, 3, 4})"
    by (rule IngesterState_name_defined)
next
  assume "unat (t AND 7) = 0 \<and> 0 < sint (ucast (drop_bit 3 t) :: 32 word)
        \<and> (ucast (drop_bit 3 t) :: 32 word) \<notin> {1, 2, 3, 6}
        \<and> length (pre @ encodeVarintRing t @ encodeVarintRing v @ post) < 2 ^ 63"
  then show "IngesterDesc_Unmarshal_field
            (pre @ encodeVarintRing t @ encodeVarintRing v @ post) (length pre) m
          = Inr (m, length pre + length (encodeVarintRing t @ encodeVarintRing v))"
    by (intro unknown_varint_field) blast+
next
  assume "unat (u AND 7) = 2 \<and> 0 < sint (ucast (drop_bit 3 u) :: 32 word)
        \<and> (ucast (drop_bit 3 u) :: 32 word) \<notin> {1, 2, 3, 6}
        \<and> length (pre @ encodeVarintRing u @ encodeVarintRing (of_nat (length body))
                   @ body @ post) < 2 ^ 63"
  then show "IngesterDesc_Unmarshal_field
            (pre @ encodeVarintRing u @ encodeVarintRing (of_nat (length body)) @ body @ post)
            (length pre) m
          = Inr (m, length pre
                 + length (encodeVarintRing u @ encodeVarintRing (of_nat (length body))
                           @ body))"
    by (intro unknown_bytes_field) blast+
next
  assume "unat (u AND 7) = 2 \<and> 0 < sint (ucast (drop_bit 3 u) :: 32 word)
        \<and> (ucast (drop_bit 3 u) :: 32 word) \<notin> {1, 2, 3, 6}
        \<and> unat (t AND 7) = 0 \<and> 0 < sint (ucast (drop_bit 3 t) :: 32 word)
        \<and> (ucast (drop_bit 3 t) :: 32 word) \<notin> {1, 2, 3, 6}
        \<and> length (IngesterDesc_MarshalTo m
                   @ (encodeVarintRing u @ encodeVarintRing (of_nat (length body)) @ body)
                   @ (encodeVarintRing t @ encodeVarintRing v)) < 2 ^ 63"
  then show "IngesterDesc_Unmarshal
            (IngesterDesc_MarshalTo m
             @ (encodeVarintRing u @ encodeVarintRing (of_nat (length body)) @ body)
             @ (encodeVarintRing t @ encodeVarintRing v))
            IngesterDesc_zero = Inr m"
    by (intro IngesterDesc_Unmarshal_unknown_fields) blast+
qed

text \<open>
  The theorem at a descriptor with all four fields set, at the state 4, and at a
  length-delimited field 7 and a varint field 8.
\<close>

theorem IngesterDesc_wire_format_witness:
  "IngesterDesc_Size example_ingester < 2 ^ 63
   \<and> IngesterDesc_Marshal example_ingester = Inr [0x0a, 1, 0x61, 0x10, 1, 0x18, 4, 0x32, 3, 1, 0xac, 2]
   \<and> wire_fields [0x0a, 1, 0x61, 0x10, 1, 0x18, 4, 0x32, 3, 1, 0xac, 2] 0 []
      = Inr [(1, 2), (2, 0), (3, 0), (6, 2)]
   \<and> IngesterDesc_Unmarshal [0x0a, 1, 0x61, 0x10, 1, 0x18, 4, 0x32, 3, 1, 0xac, 2]
        IngesterDesc_zero = Inr example_ingester
   \<and> IngesterState_name 4 \<noteq> None
   \<and> unat ((0x40 :: 64 word) AND 7) = 0
   \<and> 0 < sint (ucast (drop_bit 3 (0x40 :: 64 word)) :: 32 word)
   \<and> (ucast (drop_bit 3 (0x40 :: 64 word)) :: 32 word) \<notin> {1, 2, 3, 6}
   \<and> IngesterDesc_Unmarshal_field [0x10, 1, 0x40, 5, 0x18, 4] 2 example_ingester
      = Inr (example_ingester, 4)
   \<and> unat ((0x3a :: 64 word) AND 7) = 2
   \<and> 0 < sint (ucast (drop_bit 3 (0x3a :: 64 word)) :: 32 word)
   \<and> (ucast (drop_bit 3 (0x3a :: 64 word)) :: 32 word) \<notin> {1, 2, 3, 6}
   \<and> IngesterDesc_Unmarshal_field [0x10, 1, 0x3a, 1, 0x7a, 0x18, 4] 2 example_ingester
      = Inr (example_ingester, 5)
   \<and> IngesterDesc_Unmarshal
        [0x0a, 1, 0x61, 0x10, 1, 0x18, 4, 0x32, 3, 1, 0xac, 2, 0x3a, 1, 0x7a, 0x40, 5]
        IngesterDesc_zero = Inr example_ingester"
proof -
  have sz: "IngesterDesc_Size example_ingester < 2 ^ 63"
    by (simp add: eval_simps example_ingester_def)
  have e: "IngesterDesc_MarshalTo example_ingester = [0x0a, 1, 0x61, 0x10, 1, 0x18, 4, 0x32, 3, 1, 0xac, 2]"
    by (simp add: eval_simps example_ingester_def)
  have f: "Addr example_ingester \<noteq> []" "Timestamp example_ingester \<noteq> 0" "State example_ingester \<noteq> 0" "Tokens example_ingester \<noteq> []"
    by (simp_all add: example_ingester_def)
  have n: "(2::nat) = Suc (Suc 0)" "(4::nat) = Suc (Suc (Suc (Suc 0)))"
    "(5::nat) = Suc (Suc (Suc (Suc (Suc 0))))"
    by simp_all
  from IngesterDesc_wire_format
    [where m = example_ingester and s = 4 and t = "0x40" and pre = "[0x10, 1]" and v = 5
       and post = "[0x18, 4]" and u = "0x3a" and body = "[0x7a]"] sz
  show ?thesis
    by (simp add: e f unknown_tags unknown_tags_encoded) (simp only: n)
qed

text \<open>
  C4 as stated fails at that descriptor: its serialization has four fields, numbered
  1, 2, 3 and 6, not six; and when a string field 7 and a varint field 8 follow them, the
  descriptor read back is the same as without them.
\<close>

theorem IngesterDesc_wire_format_counterexample:
  "IngesterDesc_Marshal example_ingester = Inr [0x0a, 1, 0x61, 0x10, 1, 0x18, 4, 0x32, 3, 1, 0xac, 2]
   \<and> wire_fields [0x0a, 1, 0x61, 0x10, 1, 0x18, 4, 0x32, 3, 1, 0xac, 2] 0 []
      = Inr [(1, 2), (2, 0), (3, 0), (6, 2)]
   \<and> length [(1 :: 32 word, 2 :: nat), (2, 0), (3, 0), (6, 2)] \<noteq> 6
   \<and> IngesterDesc_Unmarshal
        ([0x0a, 1, 0x61, 0x10, 1, 0x18, 4, 0x32, 3, 1, 0xac, 2] @ [0x3a, 0x01, 0x7a, 0x40, 0x05])
        IngesterDesc_zero
      = IngesterDesc_Unmarshal [0x0a, 1, 0x61, 0x10, 1, 0x18, 4, 0x32, 3, 1, 0xac, 2]
          IngesterDesc_zero
   \<and> IngesterDesc_Unmarshal [0x0a, 1, 0x61, 0x10, 1, 0x18, 4, 0x32, 3, 1, 0xac, 2]
        IngesterDesc_zero = Inr example_ingester"
  by (simp add: eval_simps example_ingester_def)

text \<open>
  C5. In the wire enum \<open>LEFT\<close> is 4, with \<open>ACTIVE\<close> = 0, \<open>LEAVING\<close> = 1,
  \<open>PENDING\<close> = 2 and \<open>JOINING\<close> = 3, in the constants and in both lookup tables;
  a descriptor in state \<open>LEFT\<close> is written as field 3 with the value 4 and read back
  from it.
\<close>

theorem LEFT_is_4:
  "LEFT = 4 \<and> ACTIVE = 0 \<and> LEAVING = 1 \<and> PENDING = 2 \<and> JOINING = 3
   \<and> IngesterState_value ''LEFT'' = Some 4
   \<and> IngesterState_value ''ACTIVE'' = Some 0
   \<and> IngesterState_value ''LEAVING'' = Some 1
   \<and> IngesterState_value ''PENDING'' = Some 2
   \<and> IngesterState_value ''JOINING'' = Some 3
   \<and> IngesterState_name 4 = Some ''LEFT''
   \<and> IngesterState_name 0 = Some ''ACTIVE''
   \<and> IngesterState_name 1 = Some ''LEAVING''
   \<and> IngesterState_name 2 = Some ''PENDING''
   \<and> IngesterState_name 3 = Some ''JOINING''
   \<and> IngesterDesc_MarshalTo (IngesterDesc_zero\<lparr>State := LEFT\<rparr>) = [0x18, 4]
   \<and> IngesterDesc_Unmarshal [0x18, 4] IngesterDesc_zero
      = Inr (IngesterDesc_zero\<lparr>State := LEFT\<rparr>)"
  by (simp add: LEFT_def ACTIVE_def LEAVING_def PENDING_def JOINING_def
      IngesterState_value_def IngesterState_name_def eval_simps)

text \<open>
  C6. A ring descriptor whose \<open>Marshal\<close> succeeds is read back by \<open>Unmarshal\<close>
  into an empty \<open>Desc\<close> as the same descriptor, which \<open>Desc.Equal\<close> accepts. The
  two hypotheses are what Go's types guarantee: the keys of a map are distinct, and the
  size of the message fits the 64-bit \<open>int\<close> that \<open>Size\<close> returns and
  \<open>make\<close> accepts.
\<close>

theorem Desc_Marshal_Unmarshal_roundtrip:
  assumes "distinct (map fst (Ingesters m))" and "Desc_Size m < 2 ^ 63"
  shows "\<exists>dAtA m'. Desc_Marshal m = Inr dAtA
           \<and> Desc_Unmarshal dAtA \<lparr>Ingesters = []\<rparr> = Inr m'
           \<and> Desc_Equal m m' \<and> m' = m"
  using Desc_Unmarshal_MarshalTo [OF assms] Desc_MarshalTo_length [of m] Desc_Equal_refl [of m]
  by (simp add: Desc_Marshal_def)

text \<open>
  The theorem at a descriptor with two instances, one of them with the empty id and a
  zero descriptor.
\<close>

theorem Desc_Marshal_Unmarshal_roundtrip_witness:
  "distinct (map fst (Ingesters example_desc))
   \<and> Desc_Size example_desc < 2 ^ 63
   \<and> Desc_Marshal example_desc
      = Inr [10, 17, 10, 1, 97, 18, 12, 10, 1, 97, 16, 1, 24, 4, 50, 3, 1, 172, 2,
             10, 4, 10, 0, 18, 0]
   \<and> Desc_Unmarshal [10, 17, 10, 1, 97, 18, 12, 10, 1, 97, 16, 1, 24, 4, 50, 3, 1, 172, 2,
                      10, 4, 10, 0, 18, 0] \<lparr>Ingesters = []\<rparr> = Inr example_desc
   \<and> Desc_Equal example_desc example_desc"
proof -
  have d: "distinct (map fst (Ingesters example_desc))"
    by (simp add: example_desc_def)
  have sz: "Desc_Size example_desc < 2 ^ 63"
    by (simp add: eval_simps example_desc_def example_ingester_def)
  have e: "Desc_Marshal example_desc
      = Inr [10, 17, 10, 1, 97, 18, 12, 10, 1, 97, 16, 1, 24, 4, 50, 3, 1, 172, 2,
             10, 4, 10, 0, 18, 0]"
    by (simp add: eval_simps example_desc_def example_ingester_def)
  from Desc_Marshal_Unmarshal_roundtrip [OF d sz] d sz show ?thesis
    by (auto simp: e)
qed
text \<open>
  C7, as amended. For \<open>k \<ge> 0\<close>, when the generator delivers \<open>k\<close> distinct
  values outside the taken set within its first \<open>n\<close> draws, \<open>GenerateTokens\<close>
  returns, and it returns exactly \<open>k\<close> tokens, none of them taken and no two equal;
  appended to a taken list without duplicates they give a list without duplicates, so
  tokens fed back from call to call stay unique. Whenever it returns, the result has
  \<open>max(0, k)\<close> tokens with these properties. For \<open>k \<le> 0\<close> it returns the empty
  list, and when fewer than \<open>k\<close> of the 32-bit values are free it does not return.
\<close>

theorem GenerateTokens_fresh:
  "(0 \<le> k \<and> nat k \<le> card (r ` {0..<n} - set taken)
      \<longrightarrow> (\<exists>tokens. GenerateTokens k taken r = Some tokens
             \<and> int (length tokens) = k
             \<and> set tokens \<inter> set taken = {}
             \<and> distinct tokens
             \<and> (distinct taken \<longrightarrow> distinct (taken @ tokens))))
   \<and> (GenerateTokens k taken r = Some res
      \<longrightarrow> int (length res) = max 0 k \<and> set res \<inter> set taken = {} \<and> distinct res
          \<and> (distinct taken \<longrightarrow> distinct (taken @ res)))
   \<and> (k \<le> 0 \<longrightarrow> GenerateTokens k taken r = Some [])
   \<and> (card (UNIV - set taken) < nat k \<longrightarrow> GenerateTokens k taken r = None)"
proof (intro conjI impI)
  show "\<exists>tokens. GenerateTokens k taken r = Some tokens
             \<and> int (length tokens) = k
             \<and> set tokens \<inter> set taken = {}
             \<and> distinct tokens
             \<and> (distinct taken \<longrightarrow> distinct (taken @ tokens))"
    if "0 \<le> k \<and> nat k \<le> card (r ` {0..<n} - set taken)"
    using that GenerateTokens_returns [of k r n taken] by blast
  show "GenerateTokens k taken r = Some []" if "k \<le> 0"
    using that by (rule GenerateTokens_nonpositive)
  show "GenerateTokens k taken r = None" if "card (UNIV - set taken) < nat k"
    using that by (rule GenerateTokens_exhausted)
next
  assume a: "GenerateTokens k taken r = Some res"
  from GenerateTokens_result [OF a]
  have l: "length res = nat k" and d: "distinct res" and s: "set res \<inter> set taken = {}"
    by simp_all
  show "int (length res) = max 0 k" using l by simp
  show "set res \<inter> set taken = {}" by (rule s)
  show "distinct res" by (rule d)
  show "distinct (taken @ res)" if "distinct taken"
    using that d s by auto
qed

text \<open>
  The theorem at two tokens, the taken set {5} and the draws 5, 7, 7, 9; at
  \<open>k = -1\<close>; and at one token when every 32-bit value is taken.
\<close>

theorem GenerateTokens_fresh_witness:
  "(0::int) \<le> 2
   \<and> nat 2 \<le> card (draws_example ` {0..<4} - set [5])
   \<and> GenerateTokens 2 [5] draws_example = Some [7, 9]
   \<and> int (length [7, 9 :: 32 word]) = max 0 2
   \<and> (- 1 :: int) \<le> 0
   \<and> GenerateTokens (- 1) [5] draws_example = Some []
   \<and> card (UNIV - set (map word_of_nat [0..<2 ^ 32] :: 32 word list)) < nat 1
   \<and> GenerateTokens 1 (map word_of_nat [0..<2 ^ 32]) draws_example = None"
proof -
  have w: "{0..<4::nat} = {0, 1, 2, 3}" by auto
  have c: "nat 2 \<le> card (draws_example ` {0..<4} - set [5])"
    by (simp add: w draws_example_def)
  have g: "GenerateTokens 2 [5] draws_example = Some [7, 9]"
    by (simp add: GenerateTokens_def GenerateTokens_loop.simps draws_example_def)
  have u: "card (UNIV - set (map word_of_nat [0..<2 ^ 32] :: 32 word list)) < nat 1"
    by (simp only: all_tokens) simp
  have a: "GenerateTokens (- 1) [5] draws_example = Some []"
    using GenerateTokens_fresh [of "- 1" draws_example 0 "[5]" "[]"] by simp
  have b: "GenerateTokens 1 (map word_of_nat [0..<2 ^ 32]) draws_example = None"
    using GenerateTokens_fresh [of 1 draws_example 0 "map word_of_nat [0..<2 ^ 32]" "[]"] u
    by blast
  from GenerateTokens_fresh [of 2 draws_example 4 "[5]" "[7, 9]"] c g a b u show ?thesis
    by simp
qed

text \<open>
  C7 as stated fails for a negative count, where the result is the empty list and not a
  list of \<open>k\<close> tokens, and when every 32-bit value is taken, where a call for one
  token does not return.
\<close>

theorem GenerateTokens_fresh_counterexample:
  "GenerateTokens (- 1) [] draws_example = Some []
   \<and> int (length ([] :: 32 word list)) \<noteq> - 1
   \<and> GenerateTokens 1 (map word_of_nat [0..<2 ^ 32]) draws_example = None"
proof -
  have "card (UNIV - set (map word_of_nat [0..<2 ^ 32] :: 32 word list)) < nat 1"
    by (simp only: all_tokens) simp
  then have "GenerateTokens 1 (map word_of_nat [0..<2 ^ 32]) draws_example = None"
    by (rule GenerateTokens_exhausted)
  then show ?thesis
    by (simp add: GenerateTokens_nonpositive)
qed




end
